theory Spec2Isabelle
  imports Main "HOL-Library.Word"
begin

section \<open>SecretSphere: the confidential double-draw lottery\<close>

text \<open>
  A shallow embedding of \<^verbatim>\<open>contracts/SecretSphere.sol\<close>. Every external entry point of
  the contract is a function from the call's arguments and the state before the call to
  either an error (the transaction reverts and the state before the call stays in force)
  or the state after the call. The encrypted-integer library the contract imports is not
  part of the repository; it is modelled from the specification as a store of
  ciphertexts addressed by handles, each with its list of granted identities.
\<close>

subsection \<open>Value types\<close>

type_synonym address = "160 word"
type_synonym uint256 = "256 word"
type_synonym bytes = "8 word list"

text \<open>
  \<^verbatim>\<open>euint32\<close>, \<^verbatim>\<open>ebool\<close> and \<^verbatim>\<open>externalEuint32\<close> are 32-byte handles in the source. A
  handle is a hash: one that the coprocessor computes for a result never equals one that
  a client made for an input. The model keeps the two kinds apart by a tag and numbers
  them: \<open>Computed k\<close> is the \<open>k\<close>-th handle computed on chain, \<open>Imported n\<close> is the
  handle \<open>n\<close> as a client submitted it. \<open>Computed 0\<close> is never computed: it is the
  value of a storage slot that was never written.
\<close>

datatype handle = Computed nat | Imported nat

type_synonym euint32 = handle
type_synonym ebool = handle
type_synonym externalEuint32 = nat

text \<open>
  A \<^verbatim>\<open>require\<close> that fails reverts with its message; checked arithmetic that overflows
  panics with code \<open>0x11\<close>; a rejected input proof is the library's own error.
\<close>

datatype error = Revert string | Panic nat | ProofInvalid

text \<open>The names the specification gives to the contract's revert messages.\<close>

definition InvalidPayment :: error where
  "InvalidPayment = Revert ''Ticket price is 0.001 ether''"

definition TicketAlreadyActive :: error where
  "TicketAlreadyActive = Revert ''Active ticket in progress''"

definition NoActiveTicket :: error where
  "NoActiveTicket = Revert ''No active ticket''"

definition NotOwner :: error where
  "NotOwner = Revert ''Only owner''"

definition InvalidRecipient :: error where
  "InvalidRecipient = Revert ''Invalid recipient''"

definition InsufficientBalance :: error where
  "InsufficientBalance = Revert ''Insufficient balance''"

definition TransferFailed :: error where
  "TransferFailed = Revert ''Withdraw failed''"

subsection \<open>The ciphertext algebra\<close>

text \<open>
  Modelled from the spec: the library \<^verbatim>\<open>@fhevm/solidity/lib/FHE.sol\<close> is missing from the
  sources. Following sections 4.1 and 9 of the specification it is an adapter over
  plaintext integers behind opaque handles: \<open>plain32\<close> and \<open>plainBool\<close> hold the
  plaintext behind each handle (only the off-chain decryption service reads them),
  \<open>acl\<close> is the list of the grants that the contract has made on each handle, and
  \<open>nextHandle\<close> numbers the next handle to compute. Every operation that computes a
  ciphertext stores it under a handle of its own.
  Encrypted 32-bit addition wraps around, as \<^typ>\<open>32 word\<close> does; the remainder is
  the unsigned one, and the source takes it by the constant 9 only. The plaintext behind
  a handle that was never produced reads as 0.
\<close>

record coprocessor =
  plain32 :: "euint32 \<Rightarrow> 32 word"
  plainBool :: "ebool \<Rightarrow> bool"
  acl :: "handle \<Rightarrow> address set"
  nextHandle :: nat

definition newEuint32 :: "32 word \<Rightarrow> coprocessor \<Rightarrow> euint32 \<times> coprocessor" where
  "newEuint32 v c =
     (Computed (nextHandle c),
      c\<lparr>plain32 := (plain32 c)(Computed (nextHandle c) := v),
        nextHandle := Suc (nextHandle c)\<rparr>)"

definition newEbool :: "bool \<Rightarrow> coprocessor \<Rightarrow> ebool \<times> coprocessor" where
  "newEbool b c =
     (Computed (nextHandle c),
      c\<lparr>plainBool := (plainBool c)(Computed (nextHandle c) := b),
        nextHandle := Suc (nextHandle c)\<rparr>)"

definition FHE_asEuint32 :: "32 word \<Rightarrow> coprocessor \<Rightarrow> euint32 \<times> coprocessor" where
  "FHE_asEuint32 v c = newEuint32 v c"

text \<open>The random source's output \<open>rnd\<close> is an argument: any 32-bit value may come out.\<close>

definition FHE_randEuint32 :: "32 word \<Rightarrow> coprocessor \<Rightarrow> euint32 \<times> coprocessor" where
  "FHE_randEuint32 rnd c = newEuint32 rnd c"

definition FHE_add :: "euint32 \<Rightarrow> euint32 \<Rightarrow> coprocessor \<Rightarrow> euint32 \<times> coprocessor" where
  "FHE_add a b c = newEuint32 (plain32 c a + plain32 c b) c"

definition FHE_rem :: "euint32 \<Rightarrow> 32 word \<Rightarrow> coprocessor \<Rightarrow> euint32 \<times> coprocessor" where
  "FHE_rem a m c = newEuint32 (plain32 c a mod m) c"

definition FHE_eq :: "euint32 \<Rightarrow> euint32 \<Rightarrow> coprocessor \<Rightarrow> ebool \<times> coprocessor" where
  "FHE_eq a b c = newEbool (plain32 c a = plain32 c b) c"

definition FHE_select ::
  "ebool \<Rightarrow> euint32 \<Rightarrow> euint32 \<Rightarrow> coprocessor \<Rightarrow> euint32 \<times> coprocessor" where
  "FHE_select cond a b c = newEuint32 (if plainBool c cond then plain32 c a else plain32 c b) c"

definition FHE_allow :: "handle \<Rightarrow> address \<Rightarrow> coprocessor \<Rightarrow> coprocessor" where
  "FHE_allow h who c = c\<lparr>acl := (acl c)(h := insert who (acl c h))\<rparr>"

text \<open>\<^verbatim>\<open>FHE.allowThis\<close> grants the contract itself; \<open>this\<close> is \<^verbatim>\<open>address(this)\<close>.\<close>

definition FHE_allowThis :: "address \<Rightarrow> handle \<Rightarrow> coprocessor \<Rightarrow> coprocessor" where
  "FHE_allowThis this h c = FHE_allow h this c"

text \<open>
  Modelled from the spec: what lies outside the contract and its library. A client
  encrypts a plaintext off chain and gets a handle and a proof (section 6);
  \<open>plaintextOf\<close> is the plaintext behind each client handle, known to the coprocessor
  only. The verifier of input proofs (section 4.1, \<^verbatim>\<open>importExternal\<close>) accepts or rejects
  a handle and a proof for the sender that submits them. The transfer mechanism
  (section 4.4) tells whether an account accepts a plain transfer of ether.
\<close>

record world =
  verifyInput :: "address \<Rightarrow> externalEuint32 \<Rightarrow> bytes \<Rightarrow> bool"
  plaintextOf :: "externalEuint32 \<Rightarrow> 32 word"
  acceptsEther :: "address \<Rightarrow> bool"

text \<open>
  Modelled from the spec: the import validates the client's handle against the proof and
  returns that same handle as an encrypted integer; the ciphertext behind it becomes
  available to the coprocessor. Whatever grants the handle already has stay with it.
\<close>

definition FHE_fromExternal ::
  "world \<Rightarrow> address \<Rightarrow> externalEuint32 \<Rightarrow> bytes \<Rightarrow> coprocessor \<Rightarrow> error + euint32 \<times> coprocessor" where
  "FHE_fromExternal w sender inputHandle inputProof c =
     (if verifyInput w sender inputHandle inputProof
      then Inr (Imported inputHandle,
                c\<lparr>plain32 := (plain32 c)(Imported inputHandle := plaintextOf w inputHandle)\<rparr>)
      else Inl ProofInvalid)"

subsection \<open>Contract state\<close>

record PlayerState =
  firstGuess :: euint32
  secondGuess :: euint32
  encryptedPoints :: euint32
  lastWinningFirst :: euint32
  lastWinningSecond :: euint32
  hasTicket :: bool
  hasResult :: bool
  hasPoints :: bool

datatype event = TicketPurchased address | DrawCompleted address

text \<open>
  The contract's storage (\<open>totalTickets\<close>, \<open>totalDraws\<close>, \<open>players\<close>), its immutable
  \<open>owner\<close>, its own address \<open>this\<close>, the ether it holds, the events it has emitted, and
  the coprocessor it talks to.
\<close>

record SecretSphere =
  owner :: address
  this :: address
  totalTickets :: uint256
  totalDraws :: uint256
  players :: "address \<Rightarrow> PlayerState"
  balance :: uint256
  events :: "event list"
  fhe :: coprocessor

definition TICKET_PRICE :: uint256 where
  "TICKET_PRICE = 1000000000000000"

definition noPlayer :: PlayerState where
  "noPlayer = \<lparr>firstGuess = Computed 0, secondGuess = Computed 0,
     encryptedPoints = Computed 0, lastWinningFirst = Computed 0,
     lastWinningSecond = Computed 0, hasTicket = False, hasResult = False, hasPoints = False\<rparr>"

definition newCoprocessor :: coprocessor where
  "newCoprocessor = \<lparr>plain32 = (\<lambda>_. 0), plainBool = (\<lambda>_. False), acl = (\<lambda>_. {}), nextHandle = 1\<rparr>"

text \<open>The constructor, run by \<open>sender\<close> for a contract deployed at \<open>addr\<close>.\<close>

definition constructor :: "address \<Rightarrow> address \<Rightarrow> SecretSphere" where
  "constructor sender addr =
     \<lparr>owner = sender, this = addr, totalTickets = 0, totalDraws = 0, players = (\<lambda>_. noPlayer),
      balance = 0, events = [], fhe = newCoprocessor\<rparr>"

subsection \<open>Draw engine and reward engine\<close>

definition randomTicketNumber :: "32 word \<Rightarrow> coprocessor \<Rightarrow> euint32 \<times> coprocessor" where
  "randomTicketNumber rnd c =
     (let (raw, c1) = FHE_randEuint32 rnd c;
          (bounded, c2) = FHE_rem raw 9 c1;
          (one, c3) = FHE_asEuint32 1 c2
      in FHE_add bounded one c3)"

definition calculateReward ::
  "euint32 \<Rightarrow> euint32 \<Rightarrow> euint32 \<Rightarrow> euint32 \<Rightarrow> coprocessor \<Rightarrow> euint32 \<times> coprocessor" where
  "calculateReward guessOne guessTwo winningFirst winningSecond c =
     (let (firstMatch, c1) = FHE_eq guessOne winningFirst c;
          (secondMatch, c2) = FHE_eq guessTwo winningSecond c1;
          (one1, c3) = FHE_asEuint32 1 c2;
          (zero1, c4) = FHE_asEuint32 0 c3;
          (sel1, c5) = FHE_select firstMatch one1 zero1 c4;
          (one2, c6) = FHE_asEuint32 1 c5;
          (zero2, c7) = FHE_asEuint32 0 c6;
          (sel2, c8) = FHE_select secondMatch one2 zero2 c7;
          (matches, c9) = FHE_add sel1 sel2 c8;
          (two, c10) = FHE_asEuint32 2 c9;
          (doubleMatch, c11) = FHE_eq matches two c10;
          (one3, c12) = FHE_asEuint32 1 c11;
          (singleMatch, c13) = FHE_eq matches one3 c12;
          (thousand, c14) = FHE_asEuint32 1000 c13;
          (hundred, c15) = FHE_asEuint32 100 c14;
          (zero3, c16) = FHE_asEuint32 0 c15;
          (inner, c17) = FHE_select singleMatch hundred zero3 c16
      in FHE_select doubleMatch thousand inner c17)"

subsection \<open>State-changing entry points\<close>

text \<open>
  \<^verbatim>\<open>buyTicket\<close> is payable: \<open>msgValue\<close> is credited to the contract before the body
  runs (the supply of ether keeps the sum far below \<open>2 ^ 256\<close>). A revert discards the
  credit with everything else. The increment of \<open>totalTickets\<close> is checked arithmetic.
  The other entry points are not payable and are modelled for calls that carry no ether.
\<close>

definition buyTicket ::
  "world \<Rightarrow> address \<Rightarrow> uint256 \<Rightarrow> externalEuint32 \<Rightarrow> externalEuint32 \<Rightarrow> bytes \<Rightarrow>
   SecretSphere \<Rightarrow> error + SecretSphere" where
  "buyTicket w sender msgValue firstChoice secondChoice inputProof s0 =
     (let s = s0\<lparr>balance := balance s0 + msgValue\<rparr> in
      if msgValue \<noteq> TICKET_PRICE then Inl (Revert ''Ticket price is 0.001 ether'')
      else
        let player = players s sender in
        if hasTicket player then Inl (Revert ''Active ticket in progress'')
        else
          case FHE_fromExternal w sender firstChoice inputProof (fhe s) of
            Inl e \<Rightarrow> Inl e
          | Inr (encryptedFirst, c1) \<Rightarrow>
             (case FHE_fromExternal w sender secondChoice inputProof c1 of
                Inl e \<Rightarrow> Inl e
              | Inr (encryptedSecond, c2) \<Rightarrow>
                  let player1 = player\<lparr>firstGuess := encryptedFirst,
                                  secondGuess := encryptedSecond,
                                  hasTicket := True,
                                  hasResult := False\<rparr>;
                      c3 = FHE_allowThis (this s) encryptedFirst c2;
                      c4 = FHE_allowThis (this s) encryptedSecond c3;
                      c5 = FHE_allow encryptedFirst sender c4;
                      c6 = FHE_allow encryptedSecond sender c5
                  in if totalTickets s = - 1 then Inl (Panic 17)
                     else Inr (s\<lparr>players := (players s)(sender := player1),
                                 fhe := c6,
                                 totalTickets := totalTickets s + 1,
                                 events := events s @ [TicketPurchased sender]\<rparr>)))"

text \<open>
  \<^verbatim>\<open>startDraw\<close> takes no argument in the source; \<open>rnd1\<close> and \<open>rnd2\<close> are what the random
  source returns to the two calls of \<^verbatim>\<open>_randomTicketNumber\<close>.
\<close>

definition startDraw ::
  "address \<Rightarrow> 32 word \<Rightarrow> 32 word \<Rightarrow> SecretSphere \<Rightarrow> error + SecretSphere" where
  "startDraw sender rnd1 rnd2 s =
     (let player = players s sender in
      if \<not> hasTicket player then Inl (Revert ''No active ticket'')
      else
        let (winningFirst, c1) = randomTicketNumber rnd1 (fhe s);
            (winningSecond, c2) = randomTicketNumber rnd2 c1;
            player1 = player\<lparr>lastWinningFirst := winningFirst,
                            lastWinningSecond := winningSecond,
                            hasTicket := False,
                            hasResult := True\<rparr>;
            c3 = FHE_allowThis (this s) winningFirst c2;
            c4 = FHE_allowThis (this s) winningSecond c3;
            c5 = FHE_allow winningFirst sender c4;
            c6 = FHE_allow winningSecond sender c5;
            (reward, c7) =
               calculateReward (firstGuess player1) (secondGuess player1)
                 winningFirst winningSecond c6;
            (player2, c8) =
               (if hasPoints player1
                then let (total, c) = FHE_add (encryptedPoints player1) reward c7
                     in (player1\<lparr>encryptedPoints := total\<rparr>, c)
                else (player1\<lparr>encryptedPoints := reward, hasPoints := True\<rparr>, c7));
            c9 = FHE_allowThis (this s) (encryptedPoints player2) c8;
            c10 = FHE_allow (encryptedPoints player2) sender c9
        in if totalDraws s = - 1 then Inl (Panic 17)
           else Inr (s\<lparr>players := (players s)(sender := player2),
                       fhe := c10,
                       totalDraws := totalDraws s + 1,
                       events := events s @ [DrawCompleted sender]\<rparr>))"

text \<open>
  \<^verbatim>\<open>withdraw\<close> hands \<open>amount\<close> to the recipient with a plain call that forwards all gas.
  The ether leaves the contract first; then the recipient's code runs. The contract
  itself declares no receive or fallback function, so a transfer to itself fails, as
  does one that the recipient rejects; the failed call undoes all it did and
  \<^verbatim>\<open>require(success)\<close> reverts. A recipient that accepts may first call back into the
  contract, which has no guard against it: \<open>callback\<close> is what these calls do to the
  state (\<open>run w txs\<close> further down, for a recipient that makes the calls \<open>txs\<close>; the
  identity for one that makes none).
\<close>

definition withdraw ::
  "world \<Rightarrow> (SecretSphere \<Rightarrow> SecretSphere) \<Rightarrow> address \<Rightarrow> address \<Rightarrow> uint256 \<Rightarrow> SecretSphere \<Rightarrow>
   error + SecretSphere" where
  "withdraw w callback sender to amount s =
     (if sender \<noteq> owner s then Inl (Revert ''Only owner'')
      else if to = 0 then Inl (Revert ''Invalid recipient'')
      else if \<not> amount \<le> balance s then Inl (Revert ''Insufficient balance'')
      else if to = this s \<or> \<not> acceptsEther w to then Inl (Revert ''Withdraw failed'')
      else Inr (callback (s\<lparr>balance := balance s - amount\<rparr>)))"

text \<open>
  The plaintext of the local variable \<^verbatim>\<open>reward\<close> of \<^verbatim>\<open>startDraw\<close>: the same steps up to the
  call of \<^verbatim>\<open>_calculateReward\<close>, then the plaintext behind the handle it returns.
\<close>

definition rewardOfDraw :: "address \<Rightarrow> 32 word \<Rightarrow> 32 word \<Rightarrow> SecretSphere \<Rightarrow> 32 word" where
  "rewardOfDraw sender rnd1 rnd2 s =
     (let player = players s sender;
          (winningFirst, c1) = randomTicketNumber rnd1 (fhe s);
          (winningSecond, c2) = randomTicketNumber rnd2 c1;
          c3 = FHE_allowThis (this s) winningFirst c2;
          c4 = FHE_allowThis (this s) winningSecond c3;
          c5 = FHE_allow winningFirst sender c4;
          c6 = FHE_allow winningSecond sender c5;
          (reward, c7) =
             calculateReward (firstGuess player) (secondGuess player)
               winningFirst winningSecond c6
      in plain32 c7 reward)"

subsection \<open>Read-only entry points\<close>

definition getTicket :: "address \<Rightarrow> SecretSphere \<Rightarrow> euint32 \<times> euint32 \<times> bool" where
  "getTicket user s =
     (let player = players s user in (firstGuess player, secondGuess player, hasTicket player))"

definition getLastWinningNumbers :: "address \<Rightarrow> SecretSphere \<Rightarrow> euint32 \<times> euint32 \<times> bool" where
  "getLastWinningNumbers user s =
     (let player = players s user
      in (lastWinningFirst player, lastWinningSecond player, hasResult player))"

definition getEncryptedPoints :: "address \<Rightarrow> SecretSphere \<Rightarrow> euint32 \<times> bool" where
  "getEncryptedPoints user s =
     (let player = players s user in (encryptedPoints player, hasPoints player))"

definition getPlayerStatus :: "address \<Rightarrow> SecretSphere \<Rightarrow> bool \<times> bool \<times> bool" where
  "getPlayerStatus user s =
     (let player = players s user in (hasTicket player, hasResult player, hasPoints player))"

definition ticketPrice :: uint256 where
  "ticketPrice = TICKET_PRICE"

definition stats :: "SecretSphere \<Rightarrow> uint256 \<times> uint256 \<times> uint256" where
  "stats s = (totalTickets s, totalDraws s, balance s)"

subsection \<open>Transactions\<close>

text \<open>
  A call names an entry point and its arguments; \<open>BuyTicket\<close> carries the payment last
  and \<open>StartDraw\<close> the two outputs of the random source. A transaction is a call made
  by a sender. In a sequence of transactions each call appears on its own: a call that
  a recipient makes while it receives a withdrawal comes right after that withdrawal
  (\<open>withdraw_reentrant\<close> below shows that this is the same state), so the withdrawal of
  a transaction is the one without calls back.
\<close>

datatype call =
    BuyTicket externalEuint32 externalEuint32 bytes uint256
  | StartDraw "32 word" "32 word"
  | Withdraw address uint256
  | GetTicket address
  | GetLastWinningNumbers address
  | GetEncryptedPoints address
  | GetPlayerStatus address
  | TicketPriceCall
  | Stats

datatype response =
    Failed error
  | Succeeded
  | Ticket euint32 euint32 bool
  | WinningNumbers euint32 euint32 bool
  | Points euint32 bool
  | PlayerStatus bool bool bool
  | Price uint256
  | StatsOf uint256 uint256 uint256

definition commit :: "SecretSphere \<Rightarrow> error + SecretSphere \<Rightarrow> response \<times> SecretSphere" where
  "commit s r = (case r of Inl e \<Rightarrow> (Failed e, s) | Inr s' \<Rightarrow> (Succeeded, s'))"

fun exec :: "world \<Rightarrow> address \<Rightarrow> call \<Rightarrow> SecretSphere \<Rightarrow> response \<times> SecretSphere" where
  "exec w sender (BuyTicket firstChoice secondChoice inputProof msgValue) s =
     commit s (buyTicket w sender msgValue firstChoice secondChoice inputProof s)"
| "exec w sender (StartDraw rnd1 rnd2) s = commit s (startDraw sender rnd1 rnd2 s)"
| "exec w sender (Withdraw to amount) s = commit s (withdraw w (\<lambda>st. st) sender to amount s)"
| "exec w sender (GetTicket user) s =
     (case getTicket user s of (a, b, f) \<Rightarrow> (Ticket a b f, s))"
| "exec w sender (GetLastWinningNumbers user) s =
     (case getLastWinningNumbers user s of (a, b, f) \<Rightarrow> (WinningNumbers a b f, s))"
| "exec w sender (GetEncryptedPoints user) s =
     (case getEncryptedPoints user s of (a, f) \<Rightarrow> (Points a f, s))"
| "exec w sender (GetPlayerStatus user) s =
     (case getPlayerStatus user s of (t, r, p) \<Rightarrow> (PlayerStatus t r p, s))"
| "exec w sender TicketPriceCall s = (Price ticketPrice, s)"
| "exec w sender Stats s = (case stats s of (t, d, b) \<Rightarrow> (StatsOf t d b, s))"

fun run :: "world \<Rightarrow> (address \<times> call) list \<Rightarrow> SecretSphere \<Rightarrow> SecretSphere" where
  "run w [] s = s"
| "run w ((sender, c) # txs) s = run w txs (snd (exec w sender c s))"

subsection \<open>Sample surroundings\<close>

text \<open>
  Two concrete worlds for running the contract on concrete inputs. In both, the
  verifier accepts every input handle, and every client handle encrypts the digit 1. In
  \<open>honestWorld\<close> every account accepts ether; in \<open>rejectingWorld\<close> none does (as a
  contract without a payable receive function).
\<close>

definition honestWorld :: world where
  "honestWorld =
     \<lparr>verifyInput = (\<lambda>_ _ _. True), plaintextOf = (\<lambda>_. 1), acceptsEther = (\<lambda>_. True)\<rparr>"

definition rejectingWorld :: world where
  "rejectingWorld =
     \<lparr>verifyInput = (\<lambda>_ _ _. True), plaintextOf = (\<lambda>_. 1), acceptsEther = (\<lambda>_. False)\<rparr>"

fun isStartDraw :: "call \<Rightarrow> bool" where
  "isStartDraw (StartDraw _ _) = True"
| "isStartDraw _ = False"

fun isBuyTicket :: "call \<Rightarrow> bool" where
  "isBuyTicket (BuyTicket _ _ _ _) = True"
| "isBuyTicket _ = False"

subsection \<open>Ghost definitions\<close>

text \<open>
  A handle is issued when it is a client's or has been computed already.
\<close>

fun issued :: "coprocessor \<Rightarrow> handle \<Rightarrow> bool" where
  "issued c (Computed k) = (k < nextHandle c)"
| "issued c (Imported n) = True"

fun isComputed :: "handle \<Rightarrow> bool" where
  "isComputed (Computed k) = True"
| "isComputed (Imported n) = False"

text \<open>
  The handles a player's record holds, and the invariant of the reachable states that
  the proofs carry along: handles are computed in increasing order starting from 1; the
  contract made no grant on a handle not yet computed, nor on the null handle; every
  handle in a record is issued, and if it is not null the contract granted it to itself
  and to the record's player; the winning digits and the points of a record are computed
  handles that the contract granted to nobody else; and the flags tell which fields have
  been written.
\<close>

definition fieldsOf :: "PlayerState \<Rightarrow> handle set" where
  "fieldsOf p =
     {firstGuess p, secondGuess p, encryptedPoints p, lastWinningFirst p, lastWinningSecond p}"

definition drawnFieldsOf :: "PlayerState \<Rightarrow> handle set" where
  "drawnFieldsOf p = {encryptedPoints p, lastWinningFirst p, lastWinningSecond p}"

definition wellFormed :: "SecretSphere \<Rightarrow> bool" where
  "wellFormed s \<longleftrightarrow>
     0 < nextHandle (fhe s)
     \<and> acl (fhe s) (Computed 0) = {}
     \<and> (\<forall>k. nextHandle (fhe s) \<le> k \<longrightarrow> acl (fhe s) (Computed k) = {})
     \<and> (\<forall>u. \<forall>h \<in> fieldsOf (players s u).
           issued (fhe s) h \<and> (h \<noteq> Computed 0 \<longrightarrow> {this s, u} \<subseteq> acl (fhe s) h))
     \<and> (\<forall>u. \<forall>h \<in> drawnFieldsOf (players s u).
           isComputed h \<and> (h \<noteq> Computed 0 \<longrightarrow> acl (fhe s) h = {this s, u}))
     \<and> (\<forall>u. (hasTicket (players s u) \<or> hasResult (players s u) \<longrightarrow>
                firstGuess (players s u) \<noteq> Computed 0
                \<and> secondGuess (players s u) \<noteq> Computed 0)
            \<and> (hasPoints (players s u) \<longrightarrow>
                encryptedPoints (players s u) \<noteq> Computed 0
                \<and> lastWinningFirst (players s u) \<noteq> Computed 0
                \<and> lastWinningSecond (players s u) \<noteq> Computed 0))"

text \<open>
  The rewards of the successful draws of player \<open>u\<close> along a sequence of transactions,
  in order.
\<close>

fun rewardsOf :: "world \<Rightarrow> address \<Rightarrow> (address \<times> call) list \<Rightarrow> SecretSphere \<Rightarrow> 32 word list" where
  "rewardsOf w u [] s = []"
| "rewardsOf w u ((sender, c) # txs) s =
     (case c of
        StartDraw rnd1 rnd2 \<Rightarrow>
          if sender = u \<and> fst (exec w sender c s) = Succeeded
          then [rewardOfDraw u rnd1 rnd2 s] else []
      | _ \<Rightarrow> [])
     @ rewardsOf w u txs (snd (exec w sender c s))"



text \<open>
  What the off-chain decryption of a player's points returns, and 0 for a player who
  has no points yet.
\<close>

definition pointsOf :: "SecretSphere \<Rightarrow> address \<Rightarrow> 32 word" where
  "pointsOf s u =
     (if hasPoints (players s u) then plain32 (fhe s) (encryptedPoints (players s u)) else 0)"

text \<open>
  \<open>n\<close> rounds of player 7: a ticket, then a draw in which the random source returns 0
  twice.
\<close>

definition luckyRounds :: "nat \<Rightarrow> (address \<times> call) list" where
  "luckyRounds n = concat (replicate n [(7, BuyTicket 1 2 [] TICKET_PRICE), (7, StartDraw 0 0)])"

subsection \<open>A device for proofs\<close>

text \<open>
  A conditional that proofs unfold only on demand: the stores built by a chain of
  encrypted operations are evaluated with \<open>pick\<close> left folded.
\<close>

definition pick :: "bool \<Rightarrow> 'a \<Rightarrow> 'a \<Rightarrow> 'a" where
  "pick b x y = (if b then x else y)"

section \<open>Evaluating the ciphertext algebra\<close>

lemma FHE_select_pick:
  "FHE_select cond a b c = newEuint32 (pick (plainBool c cond) (plain32 c a) (plain32 c b)) c"
  by (simp add: FHE_select_def pick_def)

lemmas FHE_evals =
  newEuint32_def newEbool_def FHE_asEuint32_def FHE_randEuint32_def FHE_add_def FHE_rem_def
  FHE_eq_def FHE_select_pick

lemma unat_bounded_digit: "unat ((rnd :: 32 word) mod 9 + 1) = unat rnd mod 9 + 1"
proof -
  have m: "unat (rnd mod 9) = unat rnd mod 9"
    by (simp add: unat_mod)
  have "unat rnd mod 9 < 9"
    by simp
  with m have "unat (rnd mod 9) + unat (1 :: 32 word) < 2 ^ LENGTH(32)"
    by simp
  then have "unat (rnd mod 9 + 1) = unat (rnd mod 9) + unat (1 :: 32 word)"
    by (rule unat_add_lem [THEN iffD1])
  with m show ?thesis
    by simp
qed

subsection \<open>What one bounded digit does to the coprocessor\<close>

lemma randomTicketNumber_fst: "fst (randomTicketNumber rnd c) = Computed (nextHandle c + 3)"
  by (simp add: randomTicketNumber_def FHE_evals)

lemma randomTicketNumber_next:
  "nextHandle (snd (randomTicketNumber rnd c)) = nextHandle c + 4"
  by (simp add: randomTicketNumber_def FHE_evals)

lemma randomTicketNumber_acl: "acl (snd (randomTicketNumber rnd c)) = acl c"
  by (simp add: randomTicketNumber_def FHE_evals)

lemma randomTicketNumber_old:
  "issued c h \<Longrightarrow> plain32 (snd (randomTicketNumber rnd c)) h = plain32 c h"
  by (cases h) (simp_all add: randomTicketNumber_def FHE_evals)

lemma randomTicketNumber_plain:
  "plain32 (snd (randomTicketNumber rnd c)) (Computed (nextHandle c + 3)) = rnd mod 9 + 1"
  by (simp add: randomTicketNumber_def FHE_evals)

subsection \<open>What one reward computation does to the coprocessor\<close>

lemma calculateReward_fst:
  "fst (calculateReward g1 g2 w1 w2 c) = Computed (nextHandle c + 17)"
  by (simp add: calculateReward_def FHE_evals)

lemma calculateReward_next:
  "nextHandle (snd (calculateReward g1 g2 w1 w2 c)) = nextHandle c + 18"
  by (simp add: calculateReward_def FHE_evals)

lemma calculateReward_acl: "acl (snd (calculateReward g1 g2 w1 w2 c)) = acl c"
  by (simp add: calculateReward_def FHE_evals)

lemma calculateReward_old:
  "issued c h \<Longrightarrow> plain32 (snd (calculateReward g1 g2 w1 w2 c)) h = plain32 c h"
  by (cases h) (simp_all add: calculateReward_def FHE_evals)

lemma calculateReward_plain:
  "plain32 (snd (calculateReward g1 g2 w1 w2 c)) (Computed (nextHandle c + 17)) =
     (if plain32 c g1 = plain32 c w1 \<and> plain32 c g2 = plain32 c w2 then 1000
      else if plain32 c g1 = plain32 c w1 \<or> plain32 c g2 = plain32 c w2 then 100
      else 0)"
  apply (simp add: calculateReward_def FHE_evals)
  apply (simp add: pick_def)
  done

section \<open>What each entry point does to the state\<close>

lemmas allow_defs = FHE_allow_def FHE_allowThis_def

lemma startDraw_Inl:
  "startDraw a r1 r2 s = Inl e \<Longrightarrow>
     (\<not> hasTicket (players s a) \<and> e = NoActiveTicket) \<or> (totalDraws s = - 1 \<and> e = Panic 17)"
  by (auto simp add: startDraw_def NoActiveTicket_def Let_def split_def split: if_splits)

lemma startDraw_succeeds:
  "hasTicket (players s a) \<Longrightarrow> totalDraws s \<noteq> - 1 \<Longrightarrow> \<exists>s'. startDraw a r1 r2 s = Inr s'"
  by (simp add: startDraw_def Let_def split_def)

lemma startDraw_unfold:
  assumes ok: "startDraw a r1 r2 s = Inr s'"
    and t1: "t1 = randomTicketNumber r1 (fhe s)"
    and t2: "t2 = randomTicketNumber r2 (snd t1)"
    and c6: "c6 = FHE_allow (fst t2) a (FHE_allow (fst t1) a
                    (FHE_allowThis (this s) (fst t2) (FHE_allowThis (this s) (fst t1) (snd t2))))"
    and t3: "t3 = calculateReward (firstGuess (players s a)) (secondGuess (players s a))
                    (fst t1) (fst t2) c6"
    and t4: "t4 = FHE_add (encryptedPoints (players s a)) (fst t3) (snd t3)"
    and pts: "pts = (if hasPoints (players s a) then fst t4 else fst t3)"
    and c8: "c8 = (if hasPoints (players s a) then snd t4 else snd t3)"
  shows "s' = s\<lparr>players := (players s)(a :=
                 (if hasPoints (players s a)
                  then (players s a)\<lparr>lastWinningFirst := fst t1,
                         lastWinningSecond := fst t2, hasTicket := False, hasResult := True,
                         encryptedPoints := pts\<rparr>
                  else (players s a)\<lparr>lastWinningFirst := fst t1,
                         lastWinningSecond := fst t2, hasTicket := False, hasResult := True,
                         encryptedPoints := pts, hasPoints := True\<rparr>)),
               fhe := FHE_allow pts a (FHE_allowThis (this s) pts c8),
               totalDraws := totalDraws s + 1,
               events := events s @ [DrawCompleted a]\<rparr>"
    and "hasTicket (players s a)" and "totalDraws s \<noteq> - 1"
  using ok unfolding t1 t2 c6 t3 t4 pts c8
  by (auto simp add: startDraw_def Let_def split_def split: if_splits)

lemma rewardOfDraw_unfold:
  assumes t1: "t1 = randomTicketNumber r1 (fhe s)"
    and t2: "t2 = randomTicketNumber r2 (snd t1)"
    and c6: "c6 = FHE_allow (fst t2) a (FHE_allow (fst t1) a
                    (FHE_allowThis (this s) (fst t2) (FHE_allowThis (this s) (fst t1) (snd t2))))"
    and t3: "t3 = calculateReward (firstGuess (players s a)) (secondGuess (players s a))
                    (fst t1) (fst t2) c6"
  shows "rewardOfDraw a r1 r2 s = plain32 (snd t3) (fst t3)"
  unfolding t1 t2 c6 t3
  by (simp add: rewardOfDraw_def Let_def split_def)

lemma issued_mono: "issued c h \<Longrightarrow> nextHandle c \<le> nextHandle c' \<Longrightarrow> issued c' h"
  by (cases h) simp_all

lemma startDraw_effect:
  assumes ok: "startDraw a r1 r2 s = Inr s'"
  shows startDraw_pre: "hasTicket (players s a)"
    and startDraw_others: "\<And>u. u \<noteq> a \<Longrightarrow> players s' u = players s u"
    and startDraw_kept: "firstGuess (players s' a) = firstGuess (players s a)"
        "secondGuess (players s' a) = secondGuess (players s a)"
    and startDraw_flags: "\<not> hasTicket (players s' a)" "hasResult (players s' a)"
        "hasPoints (players s' a)"
    and startDraw_handles: "lastWinningFirst (players s' a) = Computed (nextHandle (fhe s) + 3)"
        "lastWinningSecond (players s' a) = Computed (nextHandle (fhe s) + 7)"
        "encryptedPoints (players s' a) =
           (if hasPoints (players s a) then Computed (nextHandle (fhe s) + 26)
            else Computed (nextHandle (fhe s) + 25))"
    and startDraw_next: "nextHandle (fhe s') =
           (if hasPoints (players s a) then nextHandle (fhe s) + 27 else nextHandle (fhe s) + 26)"
    and startDraw_acl: "\<And>h. acl (fhe s') h =
           (if h = lastWinningFirst (players s' a) \<or> h = lastWinningSecond (players s' a)
               \<or> h = encryptedPoints (players s' a)
            then insert a (insert (this s) (acl (fhe s) h)) else acl (fhe s) h)"
    and startDraw_old: "\<And>h. issued (fhe s) h \<Longrightarrow> plain32 (fhe s') h = plain32 (fhe s) h"
    and startDraw_winning: "plain32 (fhe s') (lastWinningFirst (players s' a)) = r1 mod 9 + 1"
        "plain32 (fhe s') (lastWinningSecond (players s' a)) = r2 mod 9 + 1"
    and startDraw_points: "issued (fhe s) (encryptedPoints (players s a)) \<Longrightarrow>
           plain32 (fhe s') (encryptedPoints (players s' a)) =
             (if hasPoints (players s a)
              then plain32 (fhe s) (encryptedPoints (players s a)) + rewardOfDraw a r1 r2 s
              else rewardOfDraw a r1 r2 s)"
    and startDraw_const: "owner s' = owner s" "this s' = this s"
        "totalTickets s' = totalTickets s" "balance s' = balance s"
        "totalDraws s' = totalDraws s + 1"
proof -
  define n where "n = nextHandle (fhe s)"
  define t1 where "t1 = randomTicketNumber r1 (fhe s)"
  define t2 where "t2 = randomTicketNumber r2 (snd t1)"
  define c6 where "c6 = FHE_allow (fst t2) a (FHE_allow (fst t1) a
                    (FHE_allowThis (this s) (fst t2) (FHE_allowThis (this s) (fst t1) (snd t2))))"
  define t3 where "t3 = calculateReward (firstGuess (players s a)) (secondGuess (players s a))
                    (fst t1) (fst t2) c6"
  define t4 where "t4 = FHE_add (encryptedPoints (players s a)) (fst t3) (snd t3)"
  define pts where "pts = (if hasPoints (players s a) then fst t4 else fst t3)"
  define c8 where "c8 = (if hasPoints (players s a) then snd t4 else snd t3)"
  note u = startDraw_unfold [OF ok t1_def t2_def c6_def t3_def t4_def pts_def c8_def]
  note s' = u(1)
  have r: "rewardOfDraw a r1 r2 s = plain32 (snd t3) (fst t3)"
    by (rule rewardOfDraw_unfold [OF t1_def t2_def c6_def t3_def])
  have f1: "fst t1 = Computed (n + 3)" "nextHandle (snd t1) = n + 4"
    "acl (snd t1) = acl (fhe s)"
    by (simp_all add: t1_def n_def randomTicketNumber_fst randomTicketNumber_next
        randomTicketNumber_acl)
  have o1: "\<And>h. issued (fhe s) h \<Longrightarrow> plain32 (snd t1) h = plain32 (fhe s) h"
    by (simp add: t1_def randomTicketNumber_old)
  have v1: "plain32 (snd t1) (Computed (n + 3)) = r1 mod 9 + 1"
    by (simp add: t1_def n_def randomTicketNumber_plain)
  have f2: "fst t2 = Computed (n + 7)" "nextHandle (snd t2) = n + 8"
    "acl (snd t2) = acl (fhe s)"
    by (simp_all add: t2_def f1 randomTicketNumber_fst randomTicketNumber_next
        randomTicketNumber_acl)
  have o2: "\<And>h. issued (snd t1) h \<Longrightarrow> plain32 (snd t2) h = plain32 (snd t1) h"
    by (simp add: t2_def randomTicketNumber_old)
  have e2: "nextHandle (snd t1) + 3 = n + 7"
    by (simp add: f1)
  have v2: "plain32 (snd t2) (Computed (n + 7)) = r2 mod 9 + 1"
    using randomTicketNumber_plain [of r2 "snd t1"] unfolding e2 t2_def [symmetric] .
  have f6: "nextHandle c6 = n + 8" "plain32 c6 = plain32 (snd t2)"
    by (simp_all add: c6_def allow_defs f2)
  have a6: "\<And>h. acl c6 h = (if h = Computed (n + 3) \<or> h = Computed (n + 7)
        then insert a (insert (this s) (acl (fhe s) h)) else acl (fhe s) h)"
    by (simp add: c6_def allow_defs f1 f2)
  have f3: "fst t3 = Computed (n + 25)" "nextHandle (snd t3) = n + 26" "acl (snd t3) = acl c6"
    by (simp_all add: t3_def f6 calculateReward_fst calculateReward_next calculateReward_acl)
  have o3: "\<And>h. issued c6 h \<Longrightarrow> plain32 (snd t3) h = plain32 (snd t2) h"
    by (simp add: t3_def calculateReward_old f6)
  have f4: "fst t4 = Computed (n + 26)" "nextHandle (snd t4) = n + 27" "acl (snd t4) = acl c6"
    "plain32 (snd t4) = (plain32 (snd t3))
        (Computed (n + 26) := plain32 (snd t3) (encryptedPoints (players s a))
           + plain32 (snd t3) (Computed (n + 25)))"
    by (simp_all add: t4_def FHE_add_def newEuint32_def f3)
  have p: "pts = (if hasPoints (players s a) then Computed (n + 26) else Computed (n + 25))"
    by (simp add: pts_def f3 f4)
  have f8: "nextHandle c8 = (if hasPoints (players s a) then n + 27 else n + 26)"
    "acl c8 = acl c6"
    by (simp_all add: c8_def f3 f4)
  have o8: "plain32 c8 h = plain32 (snd t2) h" if "issued c6 h" for h
  proof (cases h)
    case (Computed k)
    with that have "k < n + 8" by (simp add: f6)
    with that show ?thesis by (simp add: c8_def f4 o3 Computed)
  next
    case (Imported m)
    with that show ?thesis by (simp add: c8_def f4 o3)
  qed
  have up: "issued (snd t1) h" "issued c6 h" if "issued (fhe s) h" for h
    using that by (cases h; simp add: f1 f6 n_def)+
  have final: "plain32 (fhe s') = plain32 c8" "nextHandle (fhe s') = nextHandle c8"
    "\<And>h. acl (fhe s') h = (if h = pts then insert a (insert (this s) (acl c8 h)) else acl c8 h)"
    by (simp_all add: s' allow_defs)
  show "hasTicket (players s a)" by (rule u(2))
  show "\<And>u. u \<noteq> a \<Longrightarrow> players s' u = players s u" by (simp add: s')
  show "firstGuess (players s' a) = firstGuess (players s a)"
    "secondGuess (players s' a) = secondGuess (players s a)"  by (simp_all add: s')
  show "\<not> hasTicket (players s' a)" "hasResult (players s' a)" "hasPoints (players s' a)"
    by (simp_all add: s')
  show h: "lastWinningFirst (players s' a) = Computed (nextHandle (fhe s) + 3)"
        "lastWinningSecond (players s' a) = Computed (nextHandle (fhe s) + 7)"
        "encryptedPoints (players s' a) =
           (if hasPoints (players s a) then Computed (nextHandle (fhe s) + 26)
            else Computed (nextHandle (fhe s) + 25))"
    using f1 f2 p by (simp_all add: s' n_def)
  show "nextHandle (fhe s') =
           (if hasPoints (players s a) then nextHandle (fhe s) + 27 else nextHandle (fhe s) + 26)"
    using final f8 by (simp add: n_def)
  show "\<And>h. acl (fhe s') h =
           (if h = lastWinningFirst (players s' a) \<or> h = lastWinningSecond (players s' a)
               \<or> h = encryptedPoints (players s' a)
            then insert a (insert (this s) (acl (fhe s) h)) else acl (fhe s) h)"
    unfolding h final f8 a6 p n_def [symmetric] by auto
  show "\<And>h. issued (fhe s) h \<Longrightarrow> plain32 (fhe s') h = plain32 (fhe s) h"
    by (simp add: final o8 o2 o1 up)
  have w1: "plain32 c8 (Computed (n + 3)) = r1 mod 9 + 1"
    by (simp add: o8 o2 v1 f1 f6)
  have w2: "plain32 c8 (Computed (n + 7)) = r2 mod 9 + 1"
    by (simp add: o8 v2 f6)
  show "plain32 (fhe s') (lastWinningFirst (players s' a)) = r1 mod 9 + 1"
    unfolding h n_def [symmetric] final by (rule w1)
  show "plain32 (fhe s') (lastWinningSecond (players s' a)) = r2 mod 9 + 1"
    unfolding h n_def [symmetric] final by (rule w2)
  show "issued (fhe s) (encryptedPoints (players s a)) \<Longrightarrow>
           plain32 (fhe s') (encryptedPoints (players s' a)) =
             (if hasPoints (players s a)
              then plain32 (fhe s) (encryptedPoints (players s a)) + rewardOfDraw a r1 r2 s
              else rewardOfDraw a r1 r2 s)"
  proof -
    assume i: "issued (fhe s) (encryptedPoints (players s a))"
    then have "plain32 (snd t3) (encryptedPoints (players s a))
        = plain32 (fhe s) (encryptedPoints (players s a))"
      by (simp add: o3 o2 o1 up)
    then show ?thesis
      unfolding h n_def [symmetric] r f3 final by (simp add: c8_def f4)
  qed
  show "owner s' = owner s" "this s' = this s"
        "totalTickets s' = totalTickets s" "balance s' = balance s"
        "totalDraws s' = totalDraws s + 1"
    by (simp_all add: s')
qed

lemma rewardOfDraw_cases: "rewardOfDraw a r1 r2 s \<in> {0, 100, 1000}"
proof -
  define t1 where "t1 = randomTicketNumber r1 (fhe s)"
  define t2 where "t2 = randomTicketNumber r2 (snd t1)"
  define c6 where "c6 = FHE_allow (fst t2) a (FHE_allow (fst t1) a
                    (FHE_allowThis (this s) (fst t2) (FHE_allowThis (this s) (fst t1) (snd t2))))"
  define t3 where "t3 = calculateReward (firstGuess (players s a)) (secondGuess (players s a))
                    (fst t1) (fst t2) c6"
  have "rewardOfDraw a r1 r2 s = plain32 (snd t3) (fst t3)"
    by (rule rewardOfDraw_unfold [OF t1_def t2_def c6_def t3_def])
  then show ?thesis
    by (simp add: t3_def calculateReward_fst calculateReward_plain)
qed

lemma rewardOfDraw_value:
  assumes g1: "issued (fhe s) (firstGuess (players s a))"
    and g2: "issued (fhe s) (secondGuess (players s a))"
  shows "rewardOfDraw a r1 r2 s =
     (if plain32 (fhe s) (firstGuess (players s a)) = r1 mod 9 + 1
          \<and> plain32 (fhe s) (secondGuess (players s a)) = r2 mod 9 + 1 then 1000
      else if plain32 (fhe s) (firstGuess (players s a)) = r1 mod 9 + 1
          \<or> plain32 (fhe s) (secondGuess (players s a)) = r2 mod 9 + 1 then 100
      else 0)"
proof -
  define n where "n = nextHandle (fhe s)"
  define t1 where "t1 = randomTicketNumber r1 (fhe s)"
  define t2 where "t2 = randomTicketNumber r2 (snd t1)"
  define c6 where "c6 = FHE_allow (fst t2) a (FHE_allow (fst t1) a
                    (FHE_allowThis (this s) (fst t2) (FHE_allowThis (this s) (fst t1) (snd t2))))"
  define t3 where "t3 = calculateReward (firstGuess (players s a)) (secondGuess (players s a))
                    (fst t1) (fst t2) c6"
  have r: "rewardOfDraw a r1 r2 s = plain32 (snd t3) (fst t3)"
    by (rule rewardOfDraw_unfold [OF t1_def t2_def c6_def t3_def])
  have f1: "fst t1 = Computed (n + 3)" "nextHandle (snd t1) = n + 4"
    by (simp_all add: t1_def n_def randomTicketNumber_fst randomTicketNumber_next)
  have o1: "\<And>h. issued (fhe s) h \<Longrightarrow> plain32 (snd t1) h = plain32 (fhe s) h"
    by (simp add: t1_def randomTicketNumber_old)
  have v1: "plain32 (snd t1) (Computed (n + 3)) = r1 mod 9 + 1"
    by (simp add: t1_def n_def randomTicketNumber_plain)
  have f2: "fst t2 = Computed (n + 7)"
    by (simp add: t2_def f1 randomTicketNumber_fst)
  have o2: "\<And>h. issued (snd t1) h \<Longrightarrow> plain32 (snd t2) h = plain32 (snd t1) h"
    by (simp add: t2_def randomTicketNumber_old)
  have e2: "nextHandle (snd t1) + 3 = n + 7"
    by (simp add: f1)
  have v2: "plain32 (snd t2) (Computed (n + 7)) = r2 mod 9 + 1"
    using randomTicketNumber_plain [of r2 "snd t1"] unfolding e2 t2_def [symmetric] .
  have f6: "plain32 c6 = plain32 (snd t2)"
    by (simp add: c6_def allow_defs)
  have up: "issued (snd t1) h" if "issued (fhe s) h" for h
    using that by (cases h) (simp_all add: f1 n_def)
  have w1: "plain32 c6 (fst t1) = r1 mod 9 + 1"
    by (simp add: f6 f1 o2 v1)
  have w2: "plain32 c6 (fst t2) = r2 mod 9 + 1"
    by (simp add: f6 f2 v2)
  have k1: "plain32 c6 (firstGuess (players s a)) = plain32 (fhe s) (firstGuess (players s a))"
    using g1 by (simp add: f6 o2 o1 up)
  have k2: "plain32 c6 (secondGuess (players s a)) = plain32 (fhe s) (secondGuess (players s a))"
    using g2 by (simp add: f6 o2 o1 up)
  show ?thesis
    unfolding r t3_def calculateReward_fst calculateReward_plain w1 w2 k1 k2 ..
qed

lemma buyTicket_Inl:
  assumes "buyTicket w a v x1 x2 pr s = Inl e"
  shows "(v \<noteq> TICKET_PRICE \<and> e = InvalidPayment)
       \<or> (v = TICKET_PRICE \<and> hasTicket (players s a) \<and> e = TicketAlreadyActive)
       \<or> (v = TICKET_PRICE \<and> \<not> hasTicket (players s a) \<and> e = ProofInvalid
            \<and> (\<not> verifyInput w a x1 pr \<or> \<not> verifyInput w a x2 pr))
       \<or> (v = TICKET_PRICE \<and> \<not> hasTicket (players s a) \<and> e = Panic 17 \<and> totalTickets s = - 1)"
  using assms
  by (auto simp add: buyTicket_def FHE_fromExternal_def InvalidPayment_def
      TicketAlreadyActive_def Let_def split: if_splits)

lemma buyTicket_succeeds:
  assumes "verifyInput w a x1 pr" "verifyInput w a x2 pr"
    "\<not> hasTicket (players s a)" "totalTickets s \<noteq> - 1"
  shows "\<exists>s'. buyTicket w a TICKET_PRICE x1 x2 pr s = Inr s'"
  using assms
  by (simp add: buyTicket_def FHE_fromExternal_def Let_def)

lemma buyTicket_effect:
  assumes ok: "buyTicket w a v x1 x2 pr s = Inr s'"
  shows buyTicket_pre: "v = TICKET_PRICE" "\<not> hasTicket (players s a)"
        "verifyInput w a x1 pr" "verifyInput w a x2 pr"
    and buyTicket_others: "\<And>u. u \<noteq> a \<Longrightarrow> players s' u = players s u"
    and buyTicket_player: "players s' a = (players s a)\<lparr>firstGuess := Imported x1,
          secondGuess := Imported x2, hasTicket := True, hasResult := False\<rparr>"
    and buyTicket_next: "nextHandle (fhe s') = nextHandle (fhe s)"
    and buyTicket_acl: "\<And>h. acl (fhe s') h =
           (if h = firstGuess (players s' a) \<or> h = secondGuess (players s' a)
            then insert a (insert (this s) (acl (fhe s) h)) else acl (fhe s) h)"
    and buyTicket_old: "\<And>h. isComputed h \<Longrightarrow> plain32 (fhe s') h = plain32 (fhe s) h"
    and buyTicket_guesses:
        "plain32 (fhe s') (firstGuess (players s' a)) = plaintextOf w x1"
        "plain32 (fhe s') (secondGuess (players s' a)) = plaintextOf w x2"
    and buyTicket_const: "owner s' = owner s" "this s' = this s"
        "totalDraws s' = totalDraws s" "totalTickets s' = totalTickets s + 1"
        "balance s' = balance s + v"
proof -
  from ok have pre: "v = TICKET_PRICE" "\<not> hasTicket (players s a)" "totalTickets s \<noteq> - 1"
    "verifyInput w a x1 pr" "verifyInput w a x2 pr"
    by (auto simp add: buyTicket_def FHE_fromExternal_def Let_def split: if_splits)
  define c where "c = FHE_allow (Imported x2) a (FHE_allow (Imported x1) a
       (FHE_allowThis (this s) (Imported x2) (FHE_allowThis (this s) (Imported x1)
          ((fhe s)\<lparr>plain32 := (plain32 (fhe s))
              (Imported x1 := plaintextOf w x1, Imported x2 := plaintextOf w x2)\<rparr>))))"
  have s': "s' = s\<lparr>balance := balance s + v,
      players := (players s)(a := (players s a)\<lparr>firstGuess := Imported x1,
          secondGuess := Imported x2, hasTicket := True, hasResult := False\<rparr>),
      fhe := c, totalTickets := totalTickets s + 1,
      events := events s @ [TicketPurchased a]\<rparr>"
    using ok pre
    by (simp add: buyTicket_def FHE_fromExternal_def Let_def c_def)
  show "v = TICKET_PRICE" "\<not> hasTicket (players s a)"
    "verifyInput w a x1 pr" "verifyInput w a x2 pr" by (rule pre)+
  show "\<And>u. u \<noteq> a \<Longrightarrow> players s' u = players s u" by (simp add: s')
  show pl: "players s' a = (players s a)\<lparr>firstGuess := Imported x1,
          secondGuess := Imported x2, hasTicket := True, hasResult := False\<rparr>"
    by (simp add: s')
  show "nextHandle (fhe s') = nextHandle (fhe s)" by (simp add: s' c_def allow_defs)
  show "\<And>h. acl (fhe s') h =
           (if h = firstGuess (players s' a) \<or> h = secondGuess (players s' a)
            then insert a (insert (this s) (acl (fhe s) h)) else acl (fhe s) h)"
    by (auto simp add: s' c_def allow_defs)
  show "\<And>h. isComputed h \<Longrightarrow> plain32 (fhe s') h = plain32 (fhe s) h"
    by (auto simp add: s' c_def allow_defs)
  show "plain32 (fhe s') (firstGuess (players s' a)) = plaintextOf w x1"
        "plain32 (fhe s') (secondGuess (players s' a)) = plaintextOf w x2"
    by (auto simp add: s' c_def allow_defs)
  show "owner s' = owner s" "this s' = this s"
        "totalDraws s' = totalDraws s" "totalTickets s' = totalTickets s + 1"
        "balance s' = balance s + v"
    by (simp_all add: s')
qed

lemma withdraw_effect:
  assumes ok: "withdraw w callback a to amount s = Inr s'"
  shows withdraw_pre: "a = owner s" "to \<noteq> 0" "amount \<le> balance s" "acceptsEther w to"
        "to \<noteq> this s"
    and withdraw_state: "s' = callback (s\<lparr>balance := balance s - amount\<rparr>)"
  using ok by (auto simp add: withdraw_def split: if_splits)

lemma withdraw_plain:
  assumes ok: "withdraw w (\<lambda>st. st) a to amount s = Inr s'"
  shows withdraw_players: "players s' = players s"
    and withdraw_fhe: "fhe s' = fhe s"
    and withdraw_const: "owner s' = owner s" "this s' = this s"
        "totalDraws s' = totalDraws s" "totalTickets s' = totalTickets s"
    and withdraw_balance: "balance s' = balance s - amount"
  using ok by (auto simp add: withdraw_def split: if_splits)

lemma withdraw_Inl:
  "withdraw w callback a to amount s = Inl e \<longleftrightarrow> withdraw w (\<lambda>st. st) a to amount s = Inl e"
  by (simp add: withdraw_def)

subsection \<open>Transactions that succeed\<close>

lemma exec_buyTicket_Succeeded:
  "fst (exec w a (BuyTicket x1 x2 pr v) s) = Succeeded \<Longrightarrow>
     buyTicket w a v x1 x2 pr s = Inr (snd (exec w a (BuyTicket x1 x2 pr v) s))"
  by (simp add: commit_def split: sum.splits)

lemma exec_startDraw_Succeeded:
  "fst (exec w a (StartDraw r1 r2) s) = Succeeded \<Longrightarrow>
     startDraw a r1 r2 s = Inr (snd (exec w a (StartDraw r1 r2) s))"
  by (simp add: commit_def split: sum.splits)

lemma exec_withdraw_Succeeded:
  "fst (exec w a (Withdraw to amount) s) = Succeeded \<Longrightarrow>
     withdraw w (\<lambda>st. st) a to amount s = Inr (snd (exec w a (Withdraw to amount) s))"
  by (simp add: commit_def split: sum.splits)

lemma exec_not_Succeeded:
  "fst (exec w a c s) \<noteq> Succeeded \<Longrightarrow> snd (exec w a c s) = s"
  by (cases c) (simp_all add: commit_def split: sum.splits prod.splits)

lemma exec_Succeeded_cases:
  "fst (exec w a c s) = Succeeded \<Longrightarrow>
     (\<exists>x1 x2 pr v. c = BuyTicket x1 x2 pr v) \<or> (\<exists>r1 r2. c = StartDraw r1 r2)
     \<or> (\<exists>to amount. c = Withdraw to amount)"
  by (cases c) (simp_all split: prod.splits)


lemma exec_cases:
  obtains (failed) "snd (exec w a c s) = s"
  | (bought) x1 x2 pr v where "c = BuyTicket x1 x2 pr v"
      "buyTicket w a v x1 x2 pr s = Inr (snd (exec w a c s))" "fst (exec w a c s) = Succeeded"
  | (drawn) r1 r2 where "c = StartDraw r1 r2"
      "startDraw a r1 r2 s = Inr (snd (exec w a c s))" "fst (exec w a c s) = Succeeded"
  | (withdrawn) to amount where "c = Withdraw to amount"
      "withdraw w (\<lambda>st. st) a to amount s = Inr (snd (exec w a c s))"
      "fst (exec w a c s) = Succeeded"
proof (cases c)
  case (BuyTicket x1 x2 pr v)
  show ?thesis
  proof (cases "buyTicket w a v x1 x2 pr s")
    case (Inl e)
    then show ?thesis using failed by (simp add: BuyTicket commit_def)
  next
    case (Inr s')
    then show ?thesis using bought [of x1 x2 pr v] by (simp add: BuyTicket commit_def)
  qed
next
  case (StartDraw r1 r2)
  show ?thesis
  proof (cases "startDraw a r1 r2 s")
    case (Inl e)
    then show ?thesis using failed by (simp add: StartDraw commit_def)
  next
    case (Inr s')
    then show ?thesis using drawn [of r1 r2] by (simp add: StartDraw commit_def)
  qed
next
  case (Withdraw to amount)
  show ?thesis
  proof (cases "withdraw w (\<lambda>st. st) a to amount s")
    case (Inl e)
    then show ?thesis using failed by (simp add: Withdraw commit_def)
  next
    case (Inr s')
    then show ?thesis using withdrawn [of to amount] by (simp add: Withdraw commit_def)
  qed
qed (use failed in \<open>simp_all split: prod.splits\<close>)

text \<open>
  A withdrawal whose recipient makes the calls \<open>txs\<close> while it receives leaves the state
  that the withdrawal without calls back, followed by \<open>txs\<close>, leaves; and it fails exactly
  when the other fails.
\<close>

lemma withdraw_reentrant:
  "withdraw w (run w txs) a to amount s = Inr s' \<Longrightarrow>
     fst (exec w a (Withdraw to amount) s) = Succeeded
     \<and> s' = run w ((a, Withdraw to amount) # txs) s"
  "withdraw w (run w txs) a to amount s = Inl e \<Longrightarrow>
     exec w a (Withdraw to amount) s = (Failed e, s)"
  by (auto simp add: withdraw_def commit_def split: if_splits)

lemma exec_other_player:
  assumes "a \<noteq> u \<or> \<not> (isBuyTicket c \<or> isStartDraw c)"
  shows "players (snd (exec w a c s)) u = players s u"
proof (cases rule: exec_cases [of w a c s])
  case failed
  then show ?thesis by simp
next
  case (bought x1 x2 pr v)
  with assms have "u \<noteq> a" by auto
  then show ?thesis using buyTicket_others [OF bought(2)] by simp
next
  case (drawn r1 r2)
  with assms have "u \<noteq> a" by auto
  then show ?thesis using startDraw_others [OF drawn(2)] by simp
next
  case (withdrawn to amount)
  then show ?thesis using withdraw_players [OF withdrawn(2)] by simp
qed

lemma exec_hasTicket_kept:
  assumes "hasTicket (players s u)" and "\<not> (a = u \<and> isStartDraw c)"
  shows "hasTicket (players (snd (exec w a c s)) u)"
proof (cases rule: exec_cases [of w a c s])
  case failed
  with assms show ?thesis by simp
next
  case (bought x1 x2 pr v)
  from buyTicket_pre(2) [OF bought(2)] assms(1) have "u \<noteq> a" by auto
  then show ?thesis using buyTicket_others [OF bought(2)] assms(1) by simp
next
  case (drawn r1 r2)
  with assms have "u \<noteq> a" by auto
  then show ?thesis using startDraw_others [OF drawn(2)] assms(1) by simp
next
  case (withdrawn to amount)
  then show ?thesis using withdraw_players [OF withdrawn(2)] assms(1) by simp
qed

lemma run_hasTicket_kept:
  assumes "hasTicket (players s u)" and "\<forall>t \<in> set txs. fst t = u \<longrightarrow> \<not> isStartDraw (snd t)"
  shows "hasTicket (players (run w txs s) u)"
  using assms
proof (induction txs arbitrary: s)
  case Nil
  then show ?case by simp
next
  case (Cons t txs)
  obtain a c where t: "t = (a, c)" by (cases t)
  from Cons.prems t have "\<not> (a = u \<and> isStartDraw c)" by auto
  with Cons.prems(1) have "hasTicket (players (snd (exec w a c s)) u)"
    by (rule exec_hasTicket_kept)
  with Cons.IH Cons.prems(2) show ?case by (simp add: t)
qed

lemma buyTicket_active:
  "hasTicket (players s u) \<Longrightarrow>
     exec w u (BuyTicket y1 y2 pr v) s
       = (Failed (if v = TICKET_PRICE then TicketAlreadyActive else InvalidPayment), s)"
  by (simp add: commit_def buyTicket_def InvalidPayment_def TicketAlreadyActive_def Let_def)


lemma exec_buyTicket_ok:
  assumes "verifyInput w a x1 pr" "verifyInput w a x2 pr"
    "\<not> hasTicket (players s a)" "totalTickets s \<noteq> - 1"
  shows "fst (exec w a (BuyTicket x1 x2 pr TICKET_PRICE) s) = Succeeded"
  using buyTicket_succeeds [OF assms] by (auto simp add: commit_def)

lemma exec_startDraw_ok:
  assumes "hasTicket (players s a)" "totalDraws s \<noteq> - 1"
  shows "fst (exec w a (StartDraw r1 r2) s) = Succeeded"
  using startDraw_succeeds [OF assms, of r1 r2] by (auto simp add: commit_def)

lemma exec_hasPoints_kept:
  assumes "hasPoints (players s u)"
  shows "hasPoints (players (snd (exec w a c s)) u)"
proof (cases rule: exec_cases [of w a c s])
  case failed
  with assms show ?thesis by simp
next
  case (bought x1 x2 pr v)
  show ?thesis
    using buyTicket_others [OF bought(2), of u] buyTicket_player [OF bought(2)] assms
    by (cases "u = a") simp_all
next
  case (drawn r1 r2)
  show ?thesis
    using startDraw_others [OF drawn(2), of u] startDraw_flags(3) [OF drawn(2)] assms
    by (cases "u = a") simp_all
next
  case (withdrawn to amount)
  then show ?thesis using withdraw_players [OF withdrawn(2)] assms by simp
qed

lemma run_hasPoints_kept:
  "hasPoints (players s u) \<Longrightarrow> hasPoints (players (run w txs s) u)"
proof (induction txs arbitrary: s)
  case Nil
  then show ?case by simp
next
  case (Cons t txs)
  obtain a c where t: "t = (a, c)" by (cases t)
  from Cons.prems have "hasPoints (players (snd (exec w a c s)) u)"
    by (rule exec_hasPoints_kept)
  then show ?case using Cons.IH by (simp add: t)
qed

lemma exec_hasResult:
  assumes "hasResult (players s u)"
  shows "hasResult (players (snd (exec w a c s)) u)
     = (\<not> (a = u \<and> isBuyTicket c \<and> fst (exec w a c s) = Succeeded))"
proof (cases rule: exec_cases [of w a c s])
  case failed
  have "fst (exec w a c s) = Succeeded \<Longrightarrow> isBuyTicket c \<Longrightarrow> a = u \<Longrightarrow> False"
  proof -
    assume ok: "fst (exec w a c s) = Succeeded" and b: "isBuyTicket c" and "a = u"
    from b obtain x1 x2 pr v where c: "c = BuyTicket x1 x2 pr v" by (cases c) simp_all
    from ok have "buyTicket w a v x1 x2 pr s = Inr (snd (exec w a c s))"
      unfolding c by (rule exec_buyTicket_Succeeded)
    from buyTicket_player [OF this] failed assms \<open>a = u\<close> show False
      by (simp add: c) (metis PlayerState.select_convs(7) PlayerState.surjective PlayerState.update_convs(7))
  qed
  with failed assms show ?thesis by auto
next
  case (bought x1 x2 pr v)
  show ?thesis
    using buyTicket_others [OF bought(2), of u] buyTicket_player [OF bought(2)] assms bought(1,3)
    by (cases "u = a") auto
next
  case (drawn r1 r2)
  show ?thesis
    using startDraw_others [OF drawn(2), of u] startDraw_flags(2) [OF drawn(2)] assms drawn(1)
    by (cases "u = a") auto
next
  case (withdrawn to amount)
  then show ?thesis using withdraw_players [OF withdrawn(2)] assms by simp
qed

lemma honest_round:
  assumes "\<not> hasTicket (players s a)" "totalTickets s \<noteq> - 1" "totalDraws s \<noteq> - 1"
  shows "fst (exec honestWorld a (BuyTicket xa xb pr TICKET_PRICE) s) = Succeeded"
    and "fst (exec honestWorld a (StartDraw ra rb)
           (snd (exec honestWorld a (BuyTicket xa xb pr TICKET_PRICE) s))) = Succeeded"
proof -
  define s1 where "s1 = snd (exec honestWorld a (BuyTicket xa xb pr TICKET_PRICE) s)"
  show ok: "fst (exec honestWorld a (BuyTicket xa xb pr TICKET_PRICE) s) = Succeeded"
    using assms(1,2) by (intro exec_buyTicket_ok) (simp_all add: honestWorld_def)
  then have b: "buyTicket honestWorld a TICKET_PRICE xa xb pr s = Inr s1"
    unfolding s1_def by (rule exec_buyTicket_Succeeded)
  have "hasTicket (players s1 a)" "totalDraws s1 \<noteq> - 1"
    using assms(3) by (simp_all add: buyTicket_player [OF b] buyTicket_const [OF b])
  then show "fst (exec honestWorld a (StartDraw ra rb)
           (snd (exec honestWorld a (BuyTicket xa xb pr TICKET_PRICE) s))) = Succeeded"
    unfolding s1_def [symmetric] by (rule exec_startDraw_ok)
qed


section \<open>The invariant of the reachable states\<close>

lemma wellFormed_constructor: "wellFormed (constructor d addr)"
  by (simp add: wellFormed_def constructor_def newCoprocessor_def noPlayer_def fieldsOf_def
      drawnFieldsOf_def)

lemma wellFormedD:
  assumes "wellFormed s"
  shows "0 < nextHandle (fhe s)"
    and "acl (fhe s) (Computed 0) = {}"
    and "\<And>k. nextHandle (fhe s) \<le> k \<Longrightarrow> acl (fhe s) (Computed k) = {}"
    and "\<And>u h. h \<in> fieldsOf (players s u) \<Longrightarrow> issued (fhe s) h"
    and "\<And>u h. h \<in> fieldsOf (players s u) \<Longrightarrow> h \<noteq> Computed 0 \<Longrightarrow>
          this s \<in> acl (fhe s) h \<and> u \<in> acl (fhe s) h"
    and "\<And>u h. h \<in> drawnFieldsOf (players s u) \<Longrightarrow> isComputed h"
    and "\<And>u h. h \<in> drawnFieldsOf (players s u) \<Longrightarrow> h \<noteq> Computed 0 \<Longrightarrow>
          acl (fhe s) h = {this s, u}"
    and "\<And>u. hasTicket (players s u) \<or> hasResult (players s u) \<Longrightarrow>
          firstGuess (players s u) \<noteq> Computed 0 \<and> secondGuess (players s u) \<noteq> Computed 0"
    and "\<And>u. hasPoints (players s u) \<Longrightarrow>
          encryptedPoints (players s u) \<noteq> Computed 0
          \<and> lastWinningFirst (players s u) \<noteq> Computed 0
          \<and> lastWinningSecond (players s u) \<noteq> Computed 0"
  using assms unfolding wellFormed_def by blast+

lemma wellFormedI:
  assumes "0 < nextHandle (fhe s)"
    and "acl (fhe s) (Computed 0) = {}"
    and "\<And>k. nextHandle (fhe s) \<le> k \<Longrightarrow> acl (fhe s) (Computed k) = {}"
    and "\<And>u h. h \<in> fieldsOf (players s u) \<Longrightarrow> issued (fhe s) h"
    and "\<And>u h. h \<in> fieldsOf (players s u) \<Longrightarrow> h \<noteq> Computed 0 \<Longrightarrow>
          this s \<in> acl (fhe s) h \<and> u \<in> acl (fhe s) h"
    and "\<And>u h. h \<in> drawnFieldsOf (players s u) \<Longrightarrow> isComputed h"
    and "\<And>u h. h \<in> drawnFieldsOf (players s u) \<Longrightarrow> h \<noteq> Computed 0 \<Longrightarrow>
          acl (fhe s) h = {this s, u}"
    and "\<And>u. hasTicket (players s u) \<or> hasResult (players s u) \<Longrightarrow>
          firstGuess (players s u) \<noteq> Computed 0 \<and> secondGuess (players s u) \<noteq> Computed 0"
    and "\<And>u. hasPoints (players s u) \<Longrightarrow>
          encryptedPoints (players s u) \<noteq> Computed 0
          \<and> lastWinningFirst (players s u) \<noteq> Computed 0
          \<and> lastWinningSecond (players s u) \<noteq> Computed 0"
  shows "wellFormed s"
  unfolding wellFormed_def using assms by simp

lemma fieldsOf_split:
  "fieldsOf p = {firstGuess p, secondGuess p} \<union> drawnFieldsOf p"
  by (auto simp add: fieldsOf_def drawnFieldsOf_def)

lemma wellFormed_buyTicket:
  assumes wf: "wellFormed s" and ok: "buyTicket w a v x1 x2 pr s = Inr s'"
  shows "wellFormed s'"
proof (rule wellFormedI)
  note d = wellFormedD [OF wf]
  note pl = buyTicket_player [OF ok]
  note ot = buyTicket_others [OF ok]
  note nx = buyTicket_next [OF ok]
  note th = buyTicket_const(2) [OF ok]
  have g: "firstGuess (players s' a) = Imported x1" "secondGuess (players s' a) = Imported x2"
    by (simp_all add: pl)
  have acl': "acl (fhe s') h =
      (if h = Imported x1 \<or> h = Imported x2 then insert a (insert (this s) (acl (fhe s) h))
       else acl (fhe s) h)" for h
    by (simp add: buyTicket_acl [OF ok] g)
  have same: "acl (fhe s') h = acl (fhe s) h" if "isComputed h" for h
    using that by (cases h) (simp_all add: acl')
  have grow: "acl (fhe s) h \<subseteq> acl (fhe s') h" for h
    by (auto simp add: acl')
  have dr: "drawnFieldsOf (players s' u) = drawnFieldsOf (players s u)" for u
    using ot [of u] by (cases "u = a") (simp_all add: pl drawnFieldsOf_def)
  show "0 < nextHandle (fhe s')" using d(1) by (simp add: nx)
  show "acl (fhe s') (Computed 0) = {}" using d(2) by (simp add: same)
  show "acl (fhe s') (Computed k) = {}" if "nextHandle (fhe s') \<le> k" for k
    using that d(3) [of k] by (simp add: same nx)
  have cases: "h = Imported x1 \<and> u = a \<or> h = Imported x2 \<and> u = a
      \<or> h \<in> fieldsOf (players s u)" if "h \<in> fieldsOf (players s' u)" for u h
    using that ot [of u] by (cases "u = a") (auto simp add: pl fieldsOf_def)
  show "issued (fhe s') h" if "h \<in> fieldsOf (players s' u)" for u h
    using cases [OF that] d(4) [of h u] by (auto intro: issued_mono simp add: nx)
  show "this s' \<in> acl (fhe s') h \<and> u \<in> acl (fhe s') h"
    if "h \<in> fieldsOf (players s' u)" "h \<noteq> Computed 0" for u h
    using cases [OF that(1)] d(5) [of h u] that(2) grow [of h]
    by (auto simp add: acl' th)
  show "isComputed h" if "h \<in> drawnFieldsOf (players s' u)" for u h
    using that d(6) [of h u] by (simp add: dr)
  show "acl (fhe s') h = {this s', u}"
    if "h \<in> drawnFieldsOf (players s' u)" "h \<noteq> Computed 0" for u h
  proof -
    from that(1) have m: "h \<in> drawnFieldsOf (players s u)" by (simp add: dr)
    from d(6) [OF m] have "isComputed h" .
    then show ?thesis using d(7) [OF m that(2)] by (simp add: same th)
  qed
  show "firstGuess (players s' u) \<noteq> Computed 0 \<and> secondGuess (players s' u) \<noteq> Computed 0"
    if "hasTicket (players s' u) \<or> hasResult (players s' u)" for u
    using that d(8) [of u] ot [of u] by (cases "u = a") (simp_all add: pl)
  show "encryptedPoints (players s' u) \<noteq> Computed 0
          \<and> lastWinningFirst (players s' u) \<noteq> Computed 0
          \<and> lastWinningSecond (players s' u) \<noteq> Computed 0"
    if "hasPoints (players s' u)" for u
    using that d(9) [of u] ot [of u] by (cases "u = a") (simp_all add: pl)
qed

lemma wellFormed_startDraw:
  assumes wf: "wellFormed s" and ok: "startDraw a r1 r2 s = Inr s'"
  shows "wellFormed s'"
proof (rule wellFormedI)
  define n where "n = nextHandle (fhe s)"
  define k where "k = (if hasPoints (players s a) then n + 26 else n + 25)"
  note d = wellFormedD [OF wf, folded n_def]
  note ot = startDraw_others [OF ok]
  note kept = startDraw_kept [OF ok]
  note flags = startDraw_flags [OF ok]
  note nx = startDraw_next [OF ok, folded n_def]
  note th = startDraw_const(2) [OF ok]
  have hd: "lastWinningFirst (players s' a) = Computed (n + 3)"
    "lastWinningSecond (players s' a) = Computed (n + 7)"
    "encryptedPoints (players s' a) = Computed k"
    using startDraw_handles [OF ok] by (simp_all add: n_def k_def)
  have kb: "n \<le> k" "k < nextHandle (fhe s')" "n + 7 < nextHandle (fhe s')"
    by (simp_all add: k_def nx)
  have acl': "acl (fhe s') h =
      (if h = Computed (n + 3) \<or> h = Computed (n + 7) \<or> h = Computed k
       then insert a (insert (this s) (acl (fhe s) h)) else acl (fhe s) h)" for h
    by (simp add: startDraw_acl [OF ok] hd)
  have new: "acl (fhe s') (Computed (n + 3)) = {this s, a}"
    "acl (fhe s') (Computed (n + 7)) = {this s, a}"
    "acl (fhe s') (Computed k) = {this s, a}"
    using d(3) [of "n + 3"] d(3) [of "n + 7"] d(3) [of k] kb(1)
    by (auto simp add: acl')
  have old: "acl (fhe s') h = acl (fhe s) h" if "issued (fhe s) h" for h
    using that kb(1) by (cases h) (auto simp add: acl' n_def)
  have fs: "fieldsOf (players s' a)
      = {firstGuess (players s a), secondGuess (players s a),
         Computed k, Computed (n + 3), Computed (n + 7)}"
    by (simp add: fieldsOf_def hd kept)
  have ds: "drawnFieldsOf (players s' a) = {Computed k, Computed (n + 3), Computed (n + 7)}"
    by (simp add: drawnFieldsOf_def hd)
  have gs: "firstGuess (players s a) \<in> fieldsOf (players s a)"
    "secondGuess (players s a) \<in> fieldsOf (players s a)"
    by (simp_all add: fieldsOf_def)
  have up: "issued (fhe s') h" if "issued (fhe s) h" for h
    using that by (rule issued_mono) (simp add: nx n_def)
  show "0 < nextHandle (fhe s')" by (simp add: nx)
  show "acl (fhe s') (Computed 0) = {}"
    using d(1) d(2) by (simp add: old n_def)
  show "acl (fhe s') (Computed j) = {}" if "nextHandle (fhe s') \<le> j" for j
    using that d(3) [of j] kb by (auto simp add: acl' nx split: if_splits)
  show "issued (fhe s') h" if "h \<in> fieldsOf (players s' u)" for u h
  proof (cases "u = a")
    case True
    with that have "h = Computed k \<or> h = Computed (n + 3) \<or> h = Computed (n + 7)
        \<or> h \<in> fieldsOf (players s a)"
      using gs by (auto simp add: fs)
    then show ?thesis
      using d(4) [of h a] kb up by auto
  next
    case False
    with that have "h \<in> fieldsOf (players s u)" by (simp add: ot)
    then show ?thesis using d(4) up by blast
  qed
  show "this s' \<in> acl (fhe s') h \<and> u \<in> acl (fhe s') h"
    if "h \<in> fieldsOf (players s' u)" "h \<noteq> Computed 0" for u h
  proof (cases "u = a")
    case True
    with that(1) consider "h = Computed k \<or> h = Computed (n + 3) \<or> h = Computed (n + 7)"
      | "h \<in> fieldsOf (players s a)"
      using gs by (auto simp add: fs)
    then show ?thesis
    proof cases
      case 1
      then have "acl (fhe s') h = {this s, a}" using new by auto
      then show ?thesis by (simp add: th True)
    next
      case 2
      from d(4) [OF 2] d(5) [OF 2 that(2)] show ?thesis
        by (simp add: old th True)
    qed
  next
    case False
    with that(1) have m: "h \<in> fieldsOf (players s u)" by (simp add: ot)
    from d(4) [OF m] d(5) [OF m that(2)] show ?thesis
      by (simp add: old th)
  qed
  show "isComputed h" if "h \<in> drawnFieldsOf (players s' u)" for u h
  proof (cases "u = a")
    case True
    with that show ?thesis by (auto simp add: ds)
  next
    case False
    with that d(6) [of h u] show ?thesis by (simp add: ot)
  qed
  show "acl (fhe s') h = {this s', u}"
    if "h \<in> drawnFieldsOf (players s' u)" "h \<noteq> Computed 0" for u h
  proof (cases "u = a")
    case True
    with that(1) have "h = Computed (n + 3) \<or> h = Computed (n + 7) \<or> h = Computed k"
      by (auto simp add: ds)
    then have "acl (fhe s') h = {this s, a}" using new by auto
    then show ?thesis by (simp add: th True)
  next
    case False
    with that(1) have m: "h \<in> drawnFieldsOf (players s u)" by (simp add: ot)
    then have "h \<in> fieldsOf (players s u)" by (simp add: fieldsOf_split)
    from d(4) [OF this] d(7) [OF m that(2)] show ?thesis
      by (simp add: old th)
  qed
  show "firstGuess (players s' u) \<noteq> Computed 0 \<and> secondGuess (players s' u) \<noteq> Computed 0"
    if "hasTicket (players s' u) \<or> hasResult (players s' u)" for u
    using that d(8) [of u] ot [of u] startDraw_pre [OF ok]
    by (cases "u = a") (simp_all add: kept)
  show "encryptedPoints (players s' u) \<noteq> Computed 0
          \<and> lastWinningFirst (players s' u) \<noteq> Computed 0
          \<and> lastWinningSecond (players s' u) \<noteq> Computed 0"
    if "hasPoints (players s' u)" for u
  proof (cases "u = a")
    case True
    then show ?thesis using d(1) kb(1) by (simp add: hd)
  next
    case False
    with that d(9) [of u] show ?thesis by (simp add: ot)
  qed
qed

lemma wellFormed_withdraw:
  assumes wf: "wellFormed s" and ok: "withdraw w (\<lambda>st. st) a to amount s = Inr s'"
  shows "wellFormed s'"
  using wf
  by (simp add: wellFormed_def withdraw_players [OF ok] withdraw_fhe [OF ok]
      withdraw_const [OF ok])

lemma wellFormed_exec: "wellFormed s \<Longrightarrow> wellFormed (snd (exec w a c s))"
proof (cases rule: exec_cases [of w a c s])
  case failed
  then show "wellFormed s \<Longrightarrow> ?thesis" by simp
next
  case (bought x1 x2 pr v)
  then show "wellFormed s \<Longrightarrow> ?thesis" using wellFormed_buyTicket by blast
next
  case (drawn r1 r2)
  then show "wellFormed s \<Longrightarrow> ?thesis" using wellFormed_startDraw by blast
next
  case (withdrawn to amount)
  then show "wellFormed s \<Longrightarrow> ?thesis" using wellFormed_withdraw by blast
qed





section \<open>The points of a player along a run\<close>

lemma wellFormed_handles:
  assumes "wellFormed s"
  shows "issued (fhe s) (firstGuess (players s u))"
    and "issued (fhe s) (secondGuess (players s u))"
    and "issued (fhe s) (encryptedPoints (players s u))"
    and "isComputed (encryptedPoints (players s u))"
  using assms by (simp_all add: wellFormed_def fieldsOf_def drawnFieldsOf_def)

lemma rewardsOf_single_draw:
  "rewardsOf w u [(a, StartDraw r1 r2)] s =
     (if a = u \<and> fst (exec w a (StartDraw r1 r2) s) = Succeeded
      then [rewardOfDraw u r1 r2 s] else [])"
  by (auto simp del: exec.simps)

lemma rewardsOf_single_other: "\<not> isStartDraw c \<Longrightarrow> rewardsOf w u [(a, c)] s = []"
  by (cases c) simp_all

lemma pointsOf_exec:
  assumes wf: "wellFormed s"
  shows "pointsOf (snd (exec w a c s)) u = pointsOf s u + sum_list (rewardsOf w u [(a, c)] s)"
proof (cases rule: exec_cases [of w a c s])
  case failed
  have "rewardsOf w u [(a, c)] s = []"
  proof (cases "isStartDraw c")
    case True
    then obtain r1 r2 where c: "c = StartDraw r1 r2" by (cases c) simp_all
    have "\<not> (a = u \<and> fst (exec w a (StartDraw r1 r2) s) = Succeeded)"
    proof
      assume *: "a = u \<and> fst (exec w a (StartDraw r1 r2) s) = Succeeded"
      then have "fst (exec w a (StartDraw r1 r2) s) = Succeeded"
        by (rule conjunct2)
      then have "startDraw a r1 r2 s = Inr (snd (exec w a (StartDraw r1 r2) s))"
        by (rule exec_startDraw_Succeeded)
      from startDraw_pre [OF this] startDraw_flags(1) [OF this] failed show False
        by (simp add: c)
    qed
    then show ?thesis
      unfolding c rewardsOf_single_draw by simp
  next
    case False
    then show ?thesis by (rule rewardsOf_single_other)
  qed
  with failed show ?thesis by simp
next
  case (bought x1 x2 pr v)
  define s' where "s' = snd (exec w a c s)"
  note ok = bought(2) [folded s'_def]
  have e: "encryptedPoints (players s' u) = encryptedPoints (players s u)"
    "hasPoints (players s' u) = hasPoints (players s u)"
    using buyTicket_others [OF ok, of u] buyTicket_player [OF ok]
    by (cases "u = a"; simp)+
  have "isComputed (encryptedPoints (players s u))"
    using wf by (rule wellFormed_handles)
  then have "plain32 (fhe s') (encryptedPoints (players s u))
      = plain32 (fhe s) (encryptedPoints (players s u))"
    by (rule buyTicket_old [OF ok])
  then show ?thesis
    unfolding s'_def [symmetric] by (simp add: pointsOf_def e bought(1))
next
  case (drawn r1 r2)
  define s' where "s' = snd (exec w a c s)"
  note ok = drawn(2) [folded s'_def]
  have lt: "issued (fhe s) (encryptedPoints (players s v))" for v
    using wf by (rule wellFormed_handles)
  show ?thesis
  proof (cases "u = a")
    case True
    have "pointsOf s' a = pointsOf s a + rewardOfDraw a r1 r2 s"
      using startDraw_points [OF ok lt] startDraw_flags(3) [OF ok]
      by (simp add: pointsOf_def)
    then show ?thesis
      unfolding s'_def [symmetric] using drawn(3) by (simp add: True drawn(1) del: exec.simps)
  next
    case False
    have "players s' u = players s u"
      using False by (rule startDraw_others [OF ok])
    moreover have "plain32 (fhe s') (encryptedPoints (players s u))
      = plain32 (fhe s) (encryptedPoints (players s u))"
      using lt by (rule startDraw_old [OF ok])
    ultimately show ?thesis
      unfolding s'_def [symmetric] using False by (simp add: pointsOf_def drawn(1) del: exec.simps)
  qed
next
  case (withdrawn to amount)
  then show ?thesis
    using withdraw_players [OF withdrawn(2)] withdraw_fhe [OF withdrawn(2)]
    by (simp add: pointsOf_def)
qed

lemma pointsOf_run:
  "wellFormed s \<Longrightarrow> pointsOf (run w txs s) u = pointsOf s u + sum_list (rewardsOf w u txs s)"
proof (induction txs arbitrary: s)
  case Nil
  show ?case by simp
next
  case (Cons t txs)
  obtain a c where t: "t = (a, c)" by (cases t)
  define s1 where "s1 = snd (exec w a c s)"
  have wf1: "wellFormed s1"
    unfolding s1_def using Cons.prems by (rule wellFormed_exec)
  have "pointsOf s1 u = pointsOf s u + sum_list (rewardsOf w u [(a, c)] s)"
    unfolding s1_def using Cons.prems by (rule pointsOf_exec)
  moreover have "rewardsOf w u (t # txs) s = rewardsOf w u [(a, c)] s @ rewardsOf w u txs s1"
    by (simp add: t s1_def del: exec.simps)
  moreover have "run w (t # txs) s = run w txs s1"
    by (simp add: t s1_def del: exec.simps)
  ultimately show ?case
    using Cons.IH [OF wf1] by (simp add: add.assoc)
qed

lemma rewardsOf_values: "set (rewardsOf w u txs s) \<subseteq> {0, 100, 1000}"
proof (induction txs arbitrary: s)
  case Nil
  show ?case by simp
next
  case (Cons t txs)
  obtain a c where t: "t = (a, c)" by (cases t)
  have "set (rewardsOf w u [(a, c)] s) \<subseteq> {0, 100, 1000}"
  proof (cases "isStartDraw c")
    case True
    then obtain r1 r2 where c: "c = StartDraw r1 r2" by (cases c) simp_all
    show ?thesis
      unfolding c rewardsOf_single_draw using rewardOfDraw_cases [of u r1 r2 s]
      by (auto simp del: exec.simps)
  next
    case False
    show ?thesis
      unfolding rewardsOf_single_other [OF False] by simp
  qed
  moreover have "rewardsOf w u (t # txs) s
      = rewardsOf w u [(a, c)] s @ rewardsOf w u txs (snd (exec w a c s))"
    by (simp add: t del: exec.simps)
  ultimately show ?case
    using Cons.IH [of "snd (exec w a c s)"] by (simp del: exec.simps rewardsOf.simps)
qed

lemma hasPoints_run:
  "hasPoints (players (run w txs s) u) = (hasPoints (players s u) \<or> rewardsOf w u txs s \<noteq> [])"
proof (induction txs arbitrary: s)
  case Nil
  show ?case by simp
next
  case (Cons t txs)
  obtain a c where t: "t = (a, c)" by (cases t)
  define s1 where "s1 = snd (exec w a c s)"
  have step: "hasPoints (players s1 u) = (hasPoints (players s u) \<or> rewardsOf w u [(a, c)] s \<noteq> [])"
  proof (cases rule: exec_cases [of w a c s])
    case failed
    have "rewardsOf w u [(a, c)] s \<noteq> [] \<Longrightarrow> hasPoints (players s u)"
    proof -
      assume "rewardsOf w u [(a, c)] s \<noteq> []"
      then obtain r1 r2 where c: "c = StartDraw r1 r2" and ok: "fst (exec w a c s) = Succeeded"
        and au: "a = u"
        by (cases c) (simp_all del: exec.simps split: if_splits)
      from ok have "startDraw a r1 r2 s = Inr (snd (exec w a c s))"
        unfolding c by (rule exec_startDraw_Succeeded)
      from startDraw_flags(3) [OF this] failed au show ?thesis by simp
    qed
    with failed show ?thesis unfolding s1_def by auto
  next
    case (bought x1 x2 pr v)
    show ?thesis
      unfolding s1_def
      using buyTicket_others [OF bought(2), of u] buyTicket_player [OF bought(2)]
      by (cases "u = a") (simp_all add: bought(1))
  next
    case (drawn r1 r2)
    show ?thesis
      unfolding s1_def
      using startDraw_others [OF drawn(2), of u] startDraw_flags(3) [OF drawn(2)] drawn(3)
      by (cases "u = a") (auto simp add: drawn(1) simp del: exec.simps)
  next
    case (withdrawn to amount)
    show ?thesis
      unfolding s1_def using withdraw_players [OF withdrawn(2)]
      by (simp add: withdrawn(1))
  qed
  have "rewardsOf w u (t # txs) s = rewardsOf w u [(a, c)] s @ rewardsOf w u txs s1"
    by (simp add: t s1_def del: exec.simps)
  moreover have "run w (t # txs) s = run w txs s1"
    by (simp add: t s1_def del: exec.simps)
  ultimately show ?case
    using Cons.IH [of s1] step by simp
qed

lemma run_append: "run w (txs @ rest) s = run w rest (run w txs s)"
  by (induction txs arbitrary: s) (auto simp del: exec.simps)

lemma rewardsOf_append:
  "rewardsOf w u (txs @ rest) s = rewardsOf w u txs s @ rewardsOf w u rest (run w txs s)"
  by (induction txs arbitrary: s) (auto simp del: exec.simps)

lemma unat_sum_list: "unat (sum_list (ws :: 32 word list)) = sum_list (map unat ws) mod 2 ^ 32"
proof (induction ws)
  case Nil
  show ?case by simp
next
  case (Cons a ws)
  have "unat (a + sum_list ws) = (unat a + unat (sum_list ws)) mod 2 ^ 32"
    by (simp add: unat_word_ariths)
  also have "\<dots> = (unat a + sum_list (map unat ws) mod 2 ^ 32) mod 2 ^ 32"
    by (simp only: Cons.IH)
  also have "\<dots> = (unat a + sum_list (map unat ws)) mod 2 ^ 32"
    by (rule mod_add_right_eq)
  finally show ?case by simp
qed

lemma counter_not_full: "k < 2 ^ 32 \<Longrightarrow> (of_nat k :: 256 word) \<noteq> - 1"
proof
  assume k: "k < 2 ^ 32" and e: "(of_nat k :: 256 word) = - 1"
  from k have "k < 2 ^ LENGTH(256)"
    by simp
  with e have "unat (- 1 :: 256 word) = k"
    by (rule of_nat_inverse)
  moreover have "unat (- 1 :: 256 word) = 2 ^ 256 - 1"
    by (simp add: unsigned_minus_1_eq_mask mask_eq_exp_minus_1)
  ultimately show False
    using k by simp
qed

lemma lucky_round:
  assumes wf: "wellFormed s" and nt: "\<not> hasTicket (players s 7)"
    and tt: "totalTickets s \<noteq> - 1" and td: "totalDraws s \<noteq> - 1"
  shows "rewardsOf honestWorld 7 [(7, BuyTicket 1 2 [] TICKET_PRICE), (7, StartDraw 0 0)] s = [1000]"
    and "\<not> hasTicket (players (run honestWorld
            [(7, BuyTicket 1 2 [] TICKET_PRICE), (7, StartDraw 0 0)] s) 7)"
    and "totalTickets (run honestWorld
            [(7, BuyTicket 1 2 [] TICKET_PRICE), (7, StartDraw 0 0)] s) = totalTickets s + 1"
    and "totalDraws (run honestWorld
            [(7, BuyTicket 1 2 [] TICKET_PRICE), (7, StartDraw 0 0)] s) = totalDraws s + 1"
    and "wellFormed (run honestWorld
            [(7, BuyTicket 1 2 [] TICKET_PRICE), (7, StartDraw 0 0)] s)"
    and "hasResult (players (run honestWorld
            [(7, BuyTicket 1 2 [] TICKET_PRICE), (7, StartDraw 0 0)] s) 7)"
    and "hasPoints (players (run honestWorld
            [(7, BuyTicket 1 2 [] TICKET_PRICE), (7, StartDraw 0 0)] s) 7)"
    and "firstGuess (players (run honestWorld
            [(7, BuyTicket 1 2 [] TICKET_PRICE), (7, StartDraw 0 0)] s) 7) = Imported 1"
    and "secondGuess (players (run honestWorld
            [(7, BuyTicket 1 2 [] TICKET_PRICE), (7, StartDraw 0 0)] s) 7) = Imported 2"
    and "fst (exec honestWorld 7 (BuyTicket 1 2 [] TICKET_PRICE) s) = Succeeded"
proof -
  define s1 where "s1 = snd (exec honestWorld 7 (BuyTicket 1 2 [] TICKET_PRICE) s)"
  define s2 where "s2 = snd (exec honestWorld 7 (StartDraw 0 0) s1)"
  note r = honest_round(1) [OF nt tt td, where xa = 1 and xb = 2 and pr = "[]"]
    honest_round(2) [OF nt tt td, where xa = 1 and xb = 2 and pr = "[]" and ra = 0 and rb = 0]
  have b: "buyTicket honestWorld 7 TICKET_PRICE 1 2 [] s = Inr s1"
    unfolding s1_def using r(1) by (rule exec_buyTicket_Succeeded)
  have ok2: "fst (exec honestWorld 7 (StartDraw 0 0) s1) = Succeeded"
    using r(2) by (simp only: s1_def)
  then have d: "startDraw 7 0 0 s1 = Inr s2"
    unfolding s2_def by (rule exec_startDraw_Succeeded)
  have wf1: "wellFormed s1"
    using wf b by (rule wellFormed_buyTicket)
  have g: "plain32 (fhe s1) (firstGuess (players s1 7)) = 1"
    "plain32 (fhe s1) (secondGuess (players s1 7)) = 1"
    using buyTicket_guesses [OF b] by (simp_all add: honestWorld_def)
  have "rewardOfDraw 7 0 0 s1 = 1000"
    using rewardOfDraw_value [OF wellFormed_handles(1,2) [OF wf1], of 7 0 0]
    by (simp add: g)
  then have "rewardsOf honestWorld 7 [(7, StartDraw 0 0)] s1 = [1000]"
    unfolding rewardsOf_single_draw using ok2 by simp
  moreover have "rewardsOf honestWorld 7 [(7, BuyTicket 1 2 [] TICKET_PRICE)] s = []"
    by (rule rewardsOf_single_other) simp
  moreover have "rewardsOf honestWorld 7 [(7, BuyTicket 1 2 [] TICKET_PRICE), (7, StartDraw 0 0)] s
      = rewardsOf honestWorld 7 [(7, BuyTicket 1 2 [] TICKET_PRICE)] s
        @ rewardsOf honestWorld 7 [(7, StartDraw 0 0)] s1"
    by (simp add: s1_def del: exec.simps)
  ultimately show "rewardsOf honestWorld 7
      [(7, BuyTicket 1 2 [] TICKET_PRICE), (7, StartDraw 0 0)] s = [1000]"
    by simp
  have run2: "run honestWorld [(7, BuyTicket 1 2 [] TICKET_PRICE), (7, StartDraw 0 0)] s = s2"
    by (simp add: s1_def s2_def del: exec.simps)
  show "\<not> hasTicket (players (run honestWorld
            [(7, BuyTicket 1 2 [] TICKET_PRICE), (7, StartDraw 0 0)] s) 7)"
    unfolding run2 by (rule startDraw_flags(1) [OF d])
  show "totalTickets (run honestWorld
            [(7, BuyTicket 1 2 [] TICKET_PRICE), (7, StartDraw 0 0)] s) = totalTickets s + 1"
    unfolding run2 by (simp add: startDraw_const [OF d] buyTicket_const [OF b])
  show "totalDraws (run honestWorld
            [(7, BuyTicket 1 2 [] TICKET_PRICE), (7, StartDraw 0 0)] s) = totalDraws s + 1"
    unfolding run2 by (simp add: startDraw_const [OF d] buyTicket_const [OF b])
  show "wellFormed (run honestWorld
            [(7, BuyTicket 1 2 [] TICKET_PRICE), (7, StartDraw 0 0)] s)"
    unfolding run2 using wf1 d by (rule wellFormed_startDraw)
  show "hasResult (players (run honestWorld
            [(7, BuyTicket 1 2 [] TICKET_PRICE), (7, StartDraw 0 0)] s) 7)"
    unfolding run2 by (rule startDraw_flags(2) [OF d])
  show "hasPoints (players (run honestWorld
            [(7, BuyTicket 1 2 [] TICKET_PRICE), (7, StartDraw 0 0)] s) 7)"
    unfolding run2 by (rule startDraw_flags(3) [OF d])
  show "firstGuess (players (run honestWorld
            [(7, BuyTicket 1 2 [] TICKET_PRICE), (7, StartDraw 0 0)] s) 7) = Imported 1"
    unfolding run2 by (simp add: startDraw_kept [OF d] buyTicket_player [OF b])
  show "secondGuess (players (run honestWorld
            [(7, BuyTicket 1 2 [] TICKET_PRICE), (7, StartDraw 0 0)] s) 7) = Imported 2"
    unfolding run2 by (simp add: startDraw_kept [OF d] buyTicket_player [OF b])
  show "fst (exec honestWorld 7 (BuyTicket 1 2 [] TICKET_PRICE) s) = Succeeded"
    by (rule r(1))
qed

lemma luckyRounds_1:
  "luckyRounds 1 = [(7, BuyTicket 1 2 [] TICKET_PRICE), (7, StartDraw 0 0)]"
  by (simp add: luckyRounds_def)

lemma first_round:
  shows "\<not> hasTicket (players (run honestWorld (luckyRounds 1) (constructor 1 2)) 7)"
    and "totalTickets (run honestWorld (luckyRounds 1) (constructor 1 2)) = 1"
    and "totalDraws (run honestWorld (luckyRounds 1) (constructor 1 2)) = 1"
    and "wellFormed (run honestWorld (luckyRounds 1) (constructor 1 2))"
    and "hasResult (players (run honestWorld (luckyRounds 1) (constructor 1 2)) 7)"
    and "hasPoints (players (run honestWorld (luckyRounds 1) (constructor 1 2)) 7)"
    and "firstGuess (players (run honestWorld (luckyRounds 1) (constructor 1 2)) 7) = Imported 1"
    and "secondGuess (players (run honestWorld (luckyRounds 1) (constructor 1 2)) 7) = Imported 2"
    and "fst (exec honestWorld 7 (BuyTicket 1 2 [] TICKET_PRICE) (constructor 1 2)) = Succeeded"
proof -
  have init: "\<not> hasTicket (players (constructor 1 2) 7)" "totalTickets (constructor 1 2) \<noteq> - 1"
    "totalDraws (constructor 1 2) \<noteq> - 1"
    by (simp_all add: constructor_def noPlayer_def)
  note r = lucky_round [OF wellFormed_constructor init, folded luckyRounds_1]
  show "\<not> hasTicket (players (run honestWorld (luckyRounds 1) (constructor 1 2)) 7)"
    by (rule r(2))
  show "totalTickets (run honestWorld (luckyRounds 1) (constructor 1 2)) = 1"
    unfolding r(3) by (simp add: constructor_def)
  show "totalDraws (run honestWorld (luckyRounds 1) (constructor 1 2)) = 1"
    unfolding r(4) by (simp add: constructor_def)
  show "wellFormed (run honestWorld (luckyRounds 1) (constructor 1 2))"
    by (rule r(5))
  show "hasResult (players (run honestWorld (luckyRounds 1) (constructor 1 2)) 7)"
    by (rule r(6))
  show "hasPoints (players (run honestWorld (luckyRounds 1) (constructor 1 2)) 7)"
    by (rule r(7))
  show "firstGuess (players (run honestWorld (luckyRounds 1) (constructor 1 2)) 7) = Imported 1"
    by (rule r(8))
  show "secondGuess (players (run honestWorld (luckyRounds 1) (constructor 1 2)) 7) = Imported 2"
    by (rule r(9))
  show "fst (exec honestWorld 7 (BuyTicket 1 2 [] TICKET_PRICE) (constructor 1 2)) = Succeeded"
    by (rule r(10))
qed

lemma luckyRounds_Suc:
  "luckyRounds (Suc n)
     = [(7, BuyTicket 1 2 [] TICKET_PRICE), (7, StartDraw 0 0)] @ luckyRounds n"
  by (simp add: luckyRounds_def)

lemma lucky_rewards:
  assumes "wellFormed s" "\<not> hasTicket (players s 7)"
    "totalTickets s = of_nat k" "totalDraws s = of_nat k" "k + n < 2 ^ 32"
  shows "rewardsOf honestWorld 7 (luckyRounds n) s = replicate n 1000"
  using assms
proof (induction n arbitrary: s k)
  case 0
  show ?case by (simp add: luckyRounds_def)
next
  case (Suc n)
  let ?round = "[(7 :: address, BuyTicket 1 2 [] TICKET_PRICE), (7, StartDraw 0 0)]"
  from Suc.prems(5) have k: "k < 2 ^ 32" by simp
  have tt: "totalTickets s \<noteq> - 1" and td: "totalDraws s \<noteq> - 1"
    using counter_not_full [OF k] by (simp_all add: Suc.prems)
  note r = lucky_round [OF Suc.prems(1,2) tt td]
  have "rewardsOf honestWorld 7 (luckyRounds n) (run honestWorld ?round s) = replicate n 1000"
  proof (rule Suc.IH [where k = "Suc k"])
    show "totalTickets (run honestWorld ?round s) = of_nat (Suc k)"
      unfolding r(3) Suc.prems(3) by simp
    show "totalDraws (run honestWorld ?round s) = of_nat (Suc k)"
      unfolding r(4) Suc.prems(4) by simp
    show "Suc k + n < 2 ^ 32"
      using Suc.prems(5) by simp
  qed (rule r(5) r(2))+
  then show ?case
    unfolding luckyRounds_Suc rewardsOf_append r(1) by simp
qed

lemma lucky_points:
  assumes "n < 2 ^ 32"
  shows "length (rewardsOf honestWorld 7 (luckyRounds n) (constructor 1 2)) = n"
    and "0 < n \<Longrightarrow> set (rewardsOf honestWorld 7 (luckyRounds n) (constructor 1 2)) = {1000}"
    and "pointsOf (run honestWorld (luckyRounds n) (constructor 1 2)) 7 = of_nat n * 1000"
proof -
  have rs: "rewardsOf honestWorld 7 (luckyRounds n) (constructor 1 2) = replicate n 1000"
  proof (rule lucky_rewards [where k = 0])
    show "wellFormed (constructor 1 2)" by (rule wellFormed_constructor)
    show "0 + n < 2 ^ 32" using assms by simp
  qed (simp_all add: constructor_def noPlayer_def)
  show "length (rewardsOf honestWorld 7 (luckyRounds n) (constructor 1 2)) = n"
    unfolding rs by simp
  show "0 < n \<Longrightarrow> set (rewardsOf honestWorld 7 (luckyRounds n) (constructor 1 2)) = {1000}"
    unfolding rs by simp
  have "pointsOf (constructor 1 2) 7 = 0"
    by (simp add: pointsOf_def constructor_def noPlayer_def)
  then show "pointsOf (run honestWorld (luckyRounds n) (constructor 1 2)) 7 = of_nat n * 1000"
    unfolding pointsOf_run [OF wellFormed_constructor] rs by (simp add: sum_list_replicate)
qed

lemma rewards_bound:
  "set rs \<subseteq> {0, 100, 1000 :: 32 word} \<Longrightarrow> sum_list (map unat rs) \<le> 1000 * length rs"
  by (induction rs) auto


section \<open>The grants along a run\<close>

lemma exec_toggles_ticket:
  assumes "fst (exec w a c s) = Succeeded" and "isBuyTicket c \<or> isStartDraw c"
  shows "hasTicket (players (snd (exec w a c s)) a) \<noteq> hasTicket (players s a)"
proof (cases c)
  case (BuyTicket x1 x2 pr v)
  from assms(1) have ok: "buyTicket w a v x1 x2 pr s = Inr (snd (exec w a c s))"
    unfolding BuyTicket by (rule exec_buyTicket_Succeeded)
  show ?thesis using buyTicket_pre(2) [OF ok] by (simp add: buyTicket_player [OF ok])
next
  case (StartDraw r1 r2)
  from assms(1) have ok: "startDraw a r1 r2 s = Inr (snd (exec w a c s))"
    unfolding StartDraw by (rule exec_startDraw_Succeeded)
  show ?thesis using startDraw_pre [OF ok] startDraw_flags(1) [OF ok] by simp
qed (use assms(2) in simp_all)

lemma exec_unchanged:
  assumes "snd (exec w a c s) = s" and "isBuyTicket c \<or> isStartDraw c"
  shows "fst (exec w a c s) \<noteq> Succeeded"
proof
  assume "fst (exec w a c s) = Succeeded"
  from exec_toggles_ticket [OF this assms(2)] show False
    by (simp add: assms(1))
qed

lemma exec_record_kept:
  assumes "hasTicket (players s u)" and "\<not> (a = u \<and> isStartDraw c)"
  shows "players (snd (exec w a c s)) u = players s u"
proof (cases rule: exec_cases [of w a c s])
  case failed
  then show ?thesis by simp
next
  case (bought x1 x2 pr v)
  from buyTicket_pre(2) [OF bought(2)] assms(1) have "u \<noteq> a" by auto
  then show ?thesis using buyTicket_others [OF bought(2)] by simp
next
  case (drawn r1 r2)
  with assms have "u \<noteq> a" by auto
  then show ?thesis using startDraw_others [OF drawn(2)] by simp
next
  case (withdrawn to amount)
  then show ?thesis using withdraw_players [OF withdrawn(2)] by simp
qed

lemma run_record_kept:
  assumes "hasTicket (players s u)" and "\<forall>t \<in> set txs. fst t = u \<longrightarrow> \<not> isStartDraw (snd t)"
  shows "players (run w txs s) u = players s u"
  using assms
proof (induction txs arbitrary: s)
  case Nil
  then show ?case by simp
next
  case (Cons t txs)
  obtain a c where t: "t = (a, c)" by (cases t)
  from Cons.prems t have n: "\<not> (a = u \<and> isStartDraw c)" by auto
  with Cons.prems(1) have k: "players (snd (exec w a c s)) u = players s u"
    by (rule exec_record_kept)
  with Cons.prems(1) have "hasTicket (players (snd (exec w a c s)) u)" by simp
  from Cons.IH [OF this] Cons.prems(2) k show ?case by (simp add: t del: exec.simps)
qed

lemma exec_hasResult_step:
  "hasResult (players (snd (exec w a c s)) u) =
     (if a = u \<and> isBuyTicket c \<and> fst (exec w a c s) = Succeeded then False
      else if a = u \<and> isStartDraw c \<and> fst (exec w a c s) = Succeeded then True
      else hasResult (players s u))"
proof (cases rule: exec_cases [of w a c s])
  case failed
  have "\<not> (isBuyTicket c \<and> fst (exec w a c s) = Succeeded)"
    "\<not> (isStartDraw c \<and> fst (exec w a c s) = Succeeded)"
    using exec_unchanged [OF failed] by auto
  then show ?thesis using failed by auto
next
  case (bought x1 x2 pr v)
  show ?thesis
    using buyTicket_others [OF bought(2), of u] buyTicket_player [OF bought(2)] bought(1,3)
    by (cases "u = a") auto
next
  case (drawn r1 r2)
  show ?thesis
    using startDraw_others [OF drawn(2), of u] startDraw_flags(2) [OF drawn(2)] drawn(1,3)
    by (cases "u = a") auto
next
  case (withdrawn to amount)
  then show ?thesis using withdraw_players [OF withdrawn(2)] by simp
qed











section \<open>Reward correctness\<close>

text \<open>
  Claim C1. Whatever the plaintexts behind the two guess handles and the two winning
  handles are (the digits 1 to 9 in particular), the ciphertext that the reward
  computation returns decrypts to 1000 when both coordinates match, to 100 when exactly
  one of them matches, and to 0 when none does; so it is always one of 0, 100 and 1000.
\<close>

theorem calculateReward_tiers:
  "plain32 (snd (calculateReward g1 g2 w1 w2 c)) (fst (calculateReward g1 g2 w1 w2 c)) =
     (if plain32 c g1 = plain32 c w1 \<and> plain32 c g2 = plain32 c w2 then 1000
      else if (plain32 c g1 = plain32 c w1) \<noteq> (plain32 c g2 = plain32 c w2) then 100
      else 0)
   \<and> plain32 (snd (calculateReward g1 g2 w1 w2 c)) (fst (calculateReward g1 g2 w1 w2 c))
       \<in> {0, 100, 1000}"
  by (simp add: calculateReward_fst calculateReward_plain)

text \<open>Guesses 2 and 8 against winning digits 2 and 5: one match, 100 points.\<close>

theorem calculateReward_tiers_witness:
  "plain32
     (snd (calculateReward (Computed 1) (Computed 2) (Computed 3) (Computed 4)
        (newCoprocessor\<lparr>plain32 := (\<lambda>_. 0)(Computed 1 := 2, Computed 2 := 8,
            Computed 3 := 2, Computed 4 := 5), nextHandle := 5\<rparr>)))
     (fst (calculateReward (Computed 1) (Computed 2) (Computed 3) (Computed 4)
        (newCoprocessor\<lparr>plain32 := (\<lambda>_. 0)(Computed 1 := 2, Computed 2 := 8,
            Computed 3 := 2, Computed 4 := 5), nextHandle := 5\<rparr>)))
   = 100"
  using calculateReward_tiers [of "Computed 1" "Computed 2" "Computed 3" "Computed 4"
    "newCoprocessor\<lparr>plain32 := (\<lambda>_. 0)(Computed 1 := 2, Computed 2 := 8,
        Computed 3 := 2, Computed 4 := 5), nextHandle := 5\<rparr>"]
  by simp

section \<open>Bounded draw\<close>

text \<open>
  Claim C3. For every output \<open>rnd\<close> of the encrypted random source, the ciphertext
  returned by the bounded digit generator (the remainder of \<open>rnd\<close> modulo 9, plus 1)
  decrypts to a value between 1 and 9 inclusive.
\<close>

theorem randomTicketNumber_range:
  "plain32 (snd (randomTicketNumber rnd c)) (fst (randomTicketNumber rnd c)) = rnd mod 9 + 1
   \<and> 1 \<le> unat (plain32 (snd (randomTicketNumber rnd c)) (fst (randomTicketNumber rnd c)))
   \<and> unat (plain32 (snd (randomTicketNumber rnd c)) (fst (randomTicketNumber rnd c))) \<le> 9"
proof -
  have "unat rnd mod 9 < 9"
    by simp
  then show ?thesis
    by (simp add: randomTicketNumber_fst randomTicketNumber_plain unat_bounded_digit)
qed

section \<open>Price gate\<close>

text \<open>
  Claim C6. For every caller and every payment different from \<open>TICKET_PRICE\<close>, a call
  of \<open>buyTicket\<close> fails with \<open>InvalidPayment\<close>, and the state after the call is the
  state before it; so the caller's record, ciphertext fields and flags, is as before.
\<close>

theorem buyTicket_price_gate:
  "msgValue \<noteq> TICKET_PRICE \<Longrightarrow>
     exec w sender (BuyTicket firstChoice secondChoice inputProof msgValue) s
       = (Failed InvalidPayment, s)"
  by (simp add: commit_def buyTicket_def InvalidPayment_def Let_def)

theorem buyTicket_price_gate_witness:
  "exec honestWorld 7 (BuyTicket 1 2 [] 5) (constructor 1 2)
     = (Failed InvalidPayment, constructor 1 2)"
  using buyTicket_price_gate [of 5 honestWorld 7 1 2 "[]" "constructor 1 2"]
  by (simp add: TICKET_PRICE_def)

section \<open>What a purchase leaves alone\<close>

text \<open>
  Claim C10. A successful \<open>buyTicket\<close> leaves \<open>encryptedPoints\<close>, \<open>hasPoints\<close>,
  \<open>lastWinningFirst\<close> and \<open>lastWinningSecond\<close> of the caller's record as they were.
  In the contract's storage it changes the caller's \<open>firstGuess\<close>, \<open>secondGuess\<close>,
  \<open>hasTicket\<close> and \<open>hasResult\<close> and the ticket counter, and nothing else: every
  other player's record, the draw counter and the owner are as before. (The payment is
  credited, an event is emitted and the coprocessor receives the two ciphertexts with
  their grants; none of these is contract storage.)
\<close>

theorem buyTicket_frame:
  assumes "fst (exec w a (BuyTicket x1 x2 pr v) s) = Succeeded"
  shows "encryptedPoints (players (snd (exec w a (BuyTicket x1 x2 pr v) s)) a)
           = encryptedPoints (players s a)
       \<and> hasPoints (players (snd (exec w a (BuyTicket x1 x2 pr v) s)) a)
           = hasPoints (players s a)
       \<and> lastWinningFirst (players (snd (exec w a (BuyTicket x1 x2 pr v) s)) a)
           = lastWinningFirst (players s a)
       \<and> lastWinningSecond (players (snd (exec w a (BuyTicket x1 x2 pr v) s)) a)
           = lastWinningSecond (players s a)
       \<and> players (snd (exec w a (BuyTicket x1 x2 pr v) s))
           = (players s)(a := (players s a)
               \<lparr>firstGuess := firstGuess (players (snd (exec w a (BuyTicket x1 x2 pr v) s)) a),
                secondGuess := secondGuess (players (snd (exec w a (BuyTicket x1 x2 pr v) s)) a),
                hasTicket := True, hasResult := False\<rparr>)
       \<and> totalTickets (snd (exec w a (BuyTicket x1 x2 pr v) s)) = totalTickets s + 1
       \<and> totalDraws (snd (exec w a (BuyTicket x1 x2 pr v) s)) = totalDraws s
       \<and> owner (snd (exec w a (BuyTicket x1 x2 pr v) s)) = owner s"
proof -
  define s' where "s' = snd (exec w a (BuyTicket x1 x2 pr v) s)"
  have ok: "buyTicket w a v x1 x2 pr s = Inr s'"
    unfolding s'_def using assms by (rule exec_buyTicket_Succeeded)
  note pl = buyTicket_player [OF ok] and ot = buyTicket_others [OF ok]
  have "players s' u = ((players s)(a := (players s a)
               \<lparr>firstGuess := firstGuess (players s' a),
                secondGuess := secondGuess (players s' a),
                hasTicket := True, hasResult := False\<rparr>)) u" for u
    using ot [of u] by (cases "u = a") (simp_all add: pl)
  then have "players s' = (players s)(a := (players s a)
               \<lparr>firstGuess := firstGuess (players s' a),
                secondGuess := secondGuess (players s' a),
                hasTicket := True, hasResult := False\<rparr>)"
    by (rule ext)
  moreover have "encryptedPoints (players s' a) = encryptedPoints (players s a)"
    "hasPoints (players s' a) = hasPoints (players s a)"
    "lastWinningFirst (players s' a) = lastWinningFirst (players s a)"
    "lastWinningSecond (players s' a) = lastWinningSecond (players s a)"
    by (simp_all add: pl)
  ultimately show ?thesis
    unfolding s'_def [symmetric] using buyTicket_const [OF ok] by blast
qed

theorem buyTicket_frame_witness:
  "players (snd (exec honestWorld 7 (BuyTicket 1 2 [] TICKET_PRICE) (constructor 1 2))) 7
     = noPlayer\<lparr>firstGuess := Imported 1, secondGuess := Imported 2,
         hasTicket := True, hasResult := False\<rparr>
   \<and> totalTickets (snd (exec honestWorld 7 (BuyTicket 1 2 [] TICKET_PRICE) (constructor 1 2))) = 1"
proof -
  have ok: "fst (exec honestWorld 7 (BuyTicket 1 2 [] TICKET_PRICE) (constructor 1 2)) = Succeeded"
    by (simp add: commit_def buyTicket_def FHE_fromExternal_def honestWorld_def
        constructor_def noPlayer_def Let_def)
  have "firstGuess (players (snd (exec honestWorld 7 (BuyTicket 1 2 [] TICKET_PRICE)
      (constructor 1 2))) 7) = Imported 1"
    "secondGuess (players (snd (exec honestWorld 7 (BuyTicket 1 2 [] TICKET_PRICE)
      (constructor 1 2))) 7) = Imported 2"
    by (simp_all add: commit_def buyTicket_def FHE_fromExternal_def
        honestWorld_def constructor_def noPlayer_def newCoprocessor_def Let_def)
  with buyTicket_frame [OF ok] show ?thesis
    by (simp add: constructor_def)
qed

section \<open>Read-only queries\<close>

text \<open>
  Claim C9. Each of the four queries on a player's record answers every requester
  alike, leaves the state as it is, and returns nothing but the handles and flags stored
  in the queried record: two states that hold the same record for that player get the
  same answer, whatever plaintexts lie behind the handles.
\<close>

theorem queries_public:
  assumes "q \<in> {GetTicket user, GetLastWinningNumbers user, GetEncryptedPoints user,
      GetPlayerStatus user}"
  shows "exec w requester1 q s = exec w requester2 q s
       \<and> snd (exec w requester1 q s) = s
       \<and> fst (exec w requester1 q s)
           \<in> {Ticket (firstGuess (players s user)) (secondGuess (players s user))
                 (hasTicket (players s user)),
               WinningNumbers (lastWinningFirst (players s user))
                 (lastWinningSecond (players s user)) (hasResult (players s user)),
               Points (encryptedPoints (players s user)) (hasPoints (players s user)),
               PlayerStatus (hasTicket (players s user)) (hasResult (players s user))
                 (hasPoints (players s user))}
       \<and> (players t user = players s user \<longrightarrow>
            fst (exec w requester1 q t) = fst (exec w requester1 q s))"
  using assms
  by (auto simp add: getTicket_def getLastWinningNumbers_def getEncryptedPoints_def
      getPlayerStatus_def Let_def)

theorem queries_public_witness:
  "exec honestWorld 7 (GetEncryptedPoints 8) (constructor 1 2)
     = exec honestWorld 9 (GetEncryptedPoints 8) (constructor 1 2)
   \<and> snd (exec honestWorld 7 (GetEncryptedPoints 8) (constructor 1 2)) = constructor 1 2"
  using queries_public [of "GetEncryptedPoints 8" 8 honestWorld 7 "constructor 1 2" 9]
  by simp

section \<open>Single active ticket\<close>

text \<open>
  Claim C7. If a \<open>buyTicket\<close> of an identity succeeds and no \<open>startDraw\<close> of that
  identity is among the transactions that follow (of any identities, successful or not),
  then a further \<open>buyTicket\<close> of that identity, paying the ticket price, fails with
  \<open>TicketAlreadyActive\<close> and leaves the state as it is. The record still holds the
  ticket that was bought, flagged active, and no \<open>buyTicket\<close> of that identity succeeds
  or changes the state, whatever it pays: there is one active ticket at most.
\<close>

theorem second_buyTicket_fails:
  assumes "fst (exec w u (BuyTicket x1 x2 pr v) s) = Succeeded"
    and "\<forall>t \<in> set txs. fst t = u \<longrightarrow> \<not> isStartDraw (snd t)"
  shows "exec w u (BuyTicket y1 y2 pr' TICKET_PRICE)
           (run w txs (snd (exec w u (BuyTicket x1 x2 pr v) s)))
         = (Failed TicketAlreadyActive, run w txs (snd (exec w u (BuyTicket x1 x2 pr v) s)))
       \<and> hasTicket (players (run w txs (snd (exec w u (BuyTicket x1 x2 pr v) s))) u)
       \<and> players (run w txs (snd (exec w u (BuyTicket x1 x2 pr v) s))) u
           = players (snd (exec w u (BuyTicket x1 x2 pr v) s)) u
       \<and> fst (exec w u (BuyTicket y1 y2 pr' v')
             (run w txs (snd (exec w u (BuyTicket x1 x2 pr v) s)))) \<noteq> Succeeded
       \<and> snd (exec w u (BuyTicket y1 y2 pr' v')
             (run w txs (snd (exec w u (BuyTicket x1 x2 pr v) s))))
           = run w txs (snd (exec w u (BuyTicket x1 x2 pr v) s))"
proof -
  define s1 where "s1 = snd (exec w u (BuyTicket x1 x2 pr v) s)"
  have ok: "buyTicket w u v x1 x2 pr s = Inr s1"
    unfolding s1_def using assms(1) by (rule exec_buyTicket_Succeeded)
  have t1: "hasTicket (players s1 u)"
    by (simp add: buyTicket_player [OF ok])
  then have t: "hasTicket (players (run w txs s1) u)"
    using assms(2) by (rule run_hasTicket_kept)
  have k: "players (run w txs s1) u = players s1 u"
    using t1 assms(2) by (rule run_record_kept)
  have "exec w u (BuyTicket y1 y2 pr' TICKET_PRICE) (run w txs s1)
      = (Failed TicketAlreadyActive, run w txs s1)"
    using buyTicket_active [OF t, of w y1 y2 pr' TICKET_PRICE] by simp
  moreover have "fst (exec w u (BuyTicket y1 y2 pr' v') (run w txs s1)) \<noteq> Succeeded"
    "snd (exec w u (BuyTicket y1 y2 pr' v') (run w txs s1)) = run w txs s1"
    unfolding buyTicket_active [OF t] by simp_all
  ultimately show ?thesis
    unfolding s1_def [symmetric] using t k by simp
qed

text \<open>
  Player 7 buys a ticket; player 8 buys one and draws; then player 7 pays for a second
  ticket.
\<close>

theorem second_buyTicket_fails_witness:
  "exec honestWorld 7 (BuyTicket 3 4 [] TICKET_PRICE)
     (run honestWorld [(8, BuyTicket 5 6 [] TICKET_PRICE), (8, StartDraw 0 0), (7, Stats)]
        (snd (exec honestWorld 7 (BuyTicket 1 2 [] TICKET_PRICE) (constructor 1 2))))
   = (Failed TicketAlreadyActive,
      run honestWorld [(8, BuyTicket 5 6 [] TICKET_PRICE), (8, StartDraw 0 0), (7, Stats)]
        (snd (exec honestWorld 7 (BuyTicket 1 2 [] TICKET_PRICE) (constructor 1 2))))"
proof -
  have ok: "fst (exec honestWorld 7 (BuyTicket 1 2 [] TICKET_PRICE) (constructor 1 2)) = Succeeded"
    by (simp add: commit_def buyTicket_def FHE_fromExternal_def honestWorld_def
        constructor_def noPlayer_def Let_def)
  have no: "\<forall>t \<in> set [(8 :: address, BuyTicket 5 6 [] TICKET_PRICE), (8, StartDraw 0 0), (7, Stats)].
      fst t = 7 \<longrightarrow> \<not> isStartDraw (snd t)"
    by simp
  show ?thesis
    using second_buyTicket_fails [OF ok no, of 3 4 "[]" 0] by (simp only: simp_thms)
qed


section \<open>Withdrawal\<close>

text \<open>
  Claim C8, as stated, fails twice. The owner asks for an amount within the held
  balance, for a recipient that is not null. In the first case the recipient rejects the
  transfer and the call fails with \<open>TransferFailed\<close>. In the second the recipient accepts
  and, while receiving, buys a ticket: the call succeeds, and the held balance, which
  was the price of a ticket, is the price of a ticket again and has not decreased by the
  amount withdrawn.
\<close>

theorem withdraw_counterexample:
  "owner (snd (exec rejectingWorld 7 (BuyTicket 1 2 [] TICKET_PRICE) (constructor 1 2))) = 1
   \<and> balance (snd (exec rejectingWorld 7 (BuyTicket 1 2 [] TICKET_PRICE) (constructor 1 2)))
       = TICKET_PRICE
   \<and> (5 :: address) \<noteq> 0
   \<and> exec rejectingWorld 1 (Withdraw 5 TICKET_PRICE)
        (snd (exec rejectingWorld 7 (BuyTicket 1 2 [] TICKET_PRICE) (constructor 1 2)))
      = (Failed TransferFailed,
         snd (exec rejectingWorld 7 (BuyTicket 1 2 [] TICKET_PRICE) (constructor 1 2)))
   \<and> owner (snd (exec honestWorld 7 (BuyTicket 1 2 [] TICKET_PRICE) (constructor 1 2))) = 1
   \<and> balance (snd (exec honestWorld 7 (BuyTicket 1 2 [] TICKET_PRICE) (constructor 1 2)))
       = TICKET_PRICE
   \<and> fst (commit (snd (exec honestWorld 7 (BuyTicket 1 2 [] TICKET_PRICE) (constructor 1 2)))
        (withdraw honestWorld (run honestWorld [(5, BuyTicket 3 4 [] TICKET_PRICE)]) 1 5
           TICKET_PRICE
           (snd (exec honestWorld 7 (BuyTicket 1 2 [] TICKET_PRICE) (constructor 1 2)))))
      = Succeeded
   \<and> balance (snd (commit
        (snd (exec honestWorld 7 (BuyTicket 1 2 [] TICKET_PRICE) (constructor 1 2)))
        (withdraw honestWorld (run honestWorld [(5, BuyTicket 3 4 [] TICKET_PRICE)]) 1 5
           TICKET_PRICE
           (snd (exec honestWorld 7 (BuyTicket 1 2 [] TICKET_PRICE) (constructor 1 2))))))
      = TICKET_PRICE
   \<and> TICKET_PRICE \<noteq> TICKET_PRICE - TICKET_PRICE"
  by (simp add: commit_def buyTicket_def withdraw_def FHE_fromExternal_def
      rejectingWorld_def honestWorld_def constructor_def noPlayer_def Let_def
      TransferFailed_def TICKET_PRICE_def)

text \<open>
  Claim C8, amended. A \<open>withdraw\<close> by anyone but the owner fails with \<open>NotOwner\<close> and
  leaves the state, the held balance included, as it is. A \<open>withdraw\<close> by the owner for
  a recipient that is not null and an amount within the held balance fails with
  \<open>TransferFailed\<close>, the state unchanged, when the recipient rejects the transfer, as the
  contract itself does. When the recipient accepts, the call succeeds: the amount is
  taken from the held balance, then the calls that the recipient makes back into the
  contract take effect on that state; if it makes none, the held balance has gone down
  by exactly the amount.
\<close>

theorem withdraw_authorization:
  "(sender \<noteq> owner s \<longrightarrow>
      commit s (withdraw w callback sender to amount s) = (Failed NotOwner, s))
   \<and> (sender = owner s \<and> to \<noteq> 0 \<and> amount \<le> balance s
        \<and> (to = this s \<or> \<not> acceptsEther w to) \<longrightarrow>
      commit s (withdraw w callback sender to amount s) = (Failed TransferFailed, s))
   \<and> (sender = owner s \<and> to \<noteq> 0 \<and> amount \<le> balance s
        \<and> to \<noteq> this s \<and> acceptsEther w to \<longrightarrow>
      commit s (withdraw w callback sender to amount s)
        = (Succeeded, callback (s\<lparr>balance := balance s - amount\<rparr>))
      \<and> commit s (withdraw w (run w txs) sender to amount s)
        = (Succeeded, run w ((sender, Withdraw to amount) # txs) s)
      \<and> exec w sender (Withdraw to amount) s = (Succeeded, s\<lparr>balance := balance s - amount\<rparr>)
      \<and> unat (balance (snd (exec w sender (Withdraw to amount) s)))
          = unat (balance s) - unat amount)"
  by (simp add: commit_def withdraw_def NotOwner_def TransferFailed_def unat_sub)

text \<open>
  After player 7 bought a ticket: a withdrawal by player 7, who is not the owner; by the
  owner to a recipient that rejects; by the owner to the contract itself; and by the
  owner to player 5, who accepts.
\<close>

theorem withdraw_authorization_witness:
  "exec honestWorld 7 (Withdraw 5 3)
       (snd (exec honestWorld 7 (BuyTicket 1 2 [] TICKET_PRICE) (constructor 1 2)))
     = (Failed NotOwner,
        snd (exec honestWorld 7 (BuyTicket 1 2 [] TICKET_PRICE) (constructor 1 2)))
   \<and> exec rejectingWorld 1 (Withdraw 5 3)
       (snd (exec rejectingWorld 7 (BuyTicket 1 2 [] TICKET_PRICE) (constructor 1 2)))
     = (Failed TransferFailed,
        snd (exec rejectingWorld 7 (BuyTicket 1 2 [] TICKET_PRICE) (constructor 1 2)))
   \<and> exec honestWorld 1 (Withdraw 2 3)
       (snd (exec honestWorld 7 (BuyTicket 1 2 [] TICKET_PRICE) (constructor 1 2)))
     = (Failed TransferFailed,
        snd (exec honestWorld 7 (BuyTicket 1 2 [] TICKET_PRICE) (constructor 1 2)))
   \<and> fst (exec honestWorld 1 (Withdraw 5 3)
       (snd (exec honestWorld 7 (BuyTicket 1 2 [] TICKET_PRICE) (constructor 1 2))))
     = Succeeded
   \<and> balance (snd (exec honestWorld 1 (Withdraw 5 3)
       (snd (exec honestWorld 7 (BuyTicket 1 2 [] TICKET_PRICE) (constructor 1 2)))))
     = TICKET_PRICE - 3"
proof -
  define sh where "sh = snd (exec honestWorld 7 (BuyTicket 1 2 [] TICKET_PRICE) (constructor 1 2))"
  define sr where "sr = snd (exec rejectingWorld 7 (BuyTicket 1 2 [] TICKET_PRICE) (constructor 1 2))"
  have h: "owner sh = 1" "this sh = 2" "balance sh = TICKET_PRICE"
    by (simp_all add: sh_def commit_def buyTicket_def FHE_fromExternal_def honestWorld_def
        constructor_def noPlayer_def Let_def)
  have r: "owner sr = 1" "this sr = 2" "balance sr = TICKET_PRICE"
    by (simp_all add: sr_def commit_def buyTicket_def FHE_fromExternal_def rejectingWorld_def
        constructor_def noPlayer_def Let_def)
  have le: "(3 :: uint256) \<le> TICKET_PRICE"
    by (simp add: TICKET_PRICE_def)
  have a: "acceptsEther honestWorld 5" "\<not> acceptsEther rejectingWorld 5"
    by (simp_all add: honestWorld_def rejectingWorld_def)
  have "exec honestWorld 7 (Withdraw 5 3) sh = (Failed NotOwner, sh)"
    using withdraw_authorization [of 7 sh honestWorld "\<lambda>st. st" 5 3 "[]"] h by simp
  moreover have "exec rejectingWorld 1 (Withdraw 5 3) sr = (Failed TransferFailed, sr)"
    using withdraw_authorization [of 1 sr rejectingWorld "\<lambda>st. st" 5 3 "[]"] r le a by simp
  moreover have "exec honestWorld 1 (Withdraw 2 3) sh = (Failed TransferFailed, sh)"
    using withdraw_authorization [of 1 sh honestWorld "\<lambda>st. st" 2 3 "[]"] h le by simp
  moreover have "fst (exec honestWorld 1 (Withdraw 5 3) sh) = Succeeded
      \<and> balance (snd (exec honestWorld 1 (Withdraw 5 3) sh)) = TICKET_PRICE - 3"
    using withdraw_authorization [of 1 sh honestWorld "\<lambda>st. st" 5 3 "[]"] h le a by simp
  ultimately show ?thesis
    unfolding sh_def sr_def by (simp only: simp_thms)
qed


section \<open>Persistence of the flags\<close>

text \<open>
  Claim C2, as stated, fails for \<open>hasResult\<close>: a player buys a ticket and draws, which
  sets \<open>hasResult\<close>; the player's next purchase resets it.
\<close>

theorem hasResult_reset_counterexample:
  "hasResult (players (run honestWorld
       [(7, BuyTicket 1 2 [] TICKET_PRICE), (7, StartDraw 0 0)] (constructor 1 2)) 7)
   \<and> \<not> hasResult (players (run honestWorld
       [(7, BuyTicket 1 2 [] TICKET_PRICE), (7, StartDraw 0 0),
        (7, BuyTicket 3 4 [] TICKET_PRICE)] (constructor 1 2)) 7)"
proof -
  define s1 where "s1 = snd (exec honestWorld 7 (BuyTicket 1 2 [] TICKET_PRICE) (constructor 1 2))"
  define s2 where "s2 = snd (exec honestWorld 7 (StartDraw 0 0) s1)"
  define s3 where "s3 = snd (exec honestWorld 7 (BuyTicket 3 4 [] TICKET_PRICE) s2)"
  have init: "\<not> hasTicket (players (constructor 1 2) 7)" "totalTickets (constructor 1 2) \<noteq> - 1"
    "totalDraws (constructor 1 2) \<noteq> - 1"
    by (simp_all add: constructor_def noPlayer_def)
  note r = honest_round(1) [OF init, where xa = 1 and xb = 2 and pr = "[]"]
    honest_round(2) [OF init, where xa = 1 and xb = 2 and pr = "[]" and ra = 0 and rb = 0]
  have b1: "buyTicket honestWorld 7 TICKET_PRICE 1 2 [] (constructor 1 2) = Inr s1"
    unfolding s1_def using r(1) by (rule exec_buyTicket_Succeeded)
  have d2: "startDraw 7 0 0 s1 = Inr s2"
    unfolding s2_def using r(2) [folded s1_def] by (rule exec_startDraw_Succeeded)
  have res: "hasResult (players s2 7)" and nt: "\<not> hasTicket (players s2 7)"
    by (rule startDraw_flags [OF d2])+
  have "totalTickets s2 = 1"
    by (simp add: startDraw_const [OF d2] buyTicket_const [OF b1] constructor_def)
  then have "totalTickets s2 \<noteq> - 1" by simp
  with nt have "fst (exec honestWorld 7 (BuyTicket 3 4 [] TICKET_PRICE) s2) = Succeeded"
    by (intro exec_buyTicket_ok) (simp_all add: honestWorld_def)
  then have "buyTicket honestWorld 7 TICKET_PRICE 3 4 [] s2 = Inr s3"
    unfolding s3_def by (rule exec_buyTicket_Succeeded)
  then have "\<not> hasResult (players s3 7)"
    by (simp add: buyTicket_player)
  with res show ?thesis
    by (simp add: s1_def s2_def s3_def del: exec.simps)
qed

text \<open>
  Claim C2, amended. Once \<open>hasPoints\<close> of a player is true it is true after every
  sequence of transactions. Once \<open>hasResult\<close> of a player is true, it is true after a
  transaction exactly when that transaction is not a successful \<open>buyTicket\<close> of the
  same player. A successful \<open>buyTicket\<close> of the player leaves it false, and while it is
  false it is true after a transaction exactly when that transaction is a successful
  \<open>startDraw\<close> of the same player; a successful \<open>startDraw\<close> of the player always
  leaves both flags true.
\<close>

theorem flags_persistence:
  "(hasPoints (players s u) \<longrightarrow> hasPoints (players (run w txs s) u))
   \<and> (hasResult (players s u) \<longrightarrow>
        hasResult (players (snd (exec w a c s)) u)
          = (\<not> (a = u \<and> isBuyTicket c \<and> fst (exec w a c s) = Succeeded)))
   \<and> (fst (exec w u (BuyTicket x1 x2 pr v) s) = Succeeded \<longrightarrow>
        \<not> hasResult (players (snd (exec w u (BuyTicket x1 x2 pr v) s)) u))
   \<and> (\<not> hasResult (players s u) \<longrightarrow>
        hasResult (players (snd (exec w a c s)) u)
          = (a = u \<and> isStartDraw c \<and> fst (exec w a c s) = Succeeded))
   \<and> (fst (exec w u (StartDraw r1 r2) s) = Succeeded \<longrightarrow>
        hasResult (players (snd (exec w u (StartDraw r1 r2) s)) u)
        \<and> hasPoints (players (snd (exec w u (StartDraw r1 r2) s)) u))"
proof -
  have "hasPoints (players s u) \<longrightarrow> hasPoints (players (run w txs s) u)"
    using run_hasPoints_kept [of s u w txs] by blast
  moreover have "hasResult (players s u) \<longrightarrow>
        hasResult (players (snd (exec w a c s)) u)
          = (\<not> (a = u \<and> isBuyTicket c \<and> fst (exec w a c s) = Succeeded))"
    unfolding exec_hasResult_step [of w a c s u] by auto
  moreover have "fst (exec w u (BuyTicket x1 x2 pr v) s) = Succeeded \<longrightarrow>
        \<not> hasResult (players (snd (exec w u (BuyTicket x1 x2 pr v) s)) u)"
    unfolding exec_hasResult_step [of w u "BuyTicket x1 x2 pr v" s u] by simp
  moreover have "\<not> hasResult (players s u) \<longrightarrow>
        hasResult (players (snd (exec w a c s)) u)
          = (a = u \<and> isStartDraw c \<and> fst (exec w a c s) = Succeeded)"
  proof -
    have "\<not> (isBuyTicket c \<and> isStartDraw c)"
      by (cases c) simp_all
    then show ?thesis
      unfolding exec_hasResult_step [of w a c s u] by auto
  qed
  moreover have "fst (exec w u (StartDraw r1 r2) s) = Succeeded \<longrightarrow>
        hasResult (players (snd (exec w u (StartDraw r1 r2) s)) u)
        \<and> hasPoints (players (snd (exec w u (StartDraw r1 r2) s)) u)"
  proof
    assume "fst (exec w u (StartDraw r1 r2) s) = Succeeded"
    then have "startDraw u r1 r2 s = Inr (snd (exec w u (StartDraw r1 r2) s))"
      by (rule exec_startDraw_Succeeded)
    from startDraw_flags(2,3) [OF this]
    show "hasResult (players (snd (exec w u (StartDraw r1 r2) s)) u)
        \<and> hasPoints (players (snd (exec w u (StartDraw r1 r2) s)) u)"
      by simp
  qed
  ultimately show ?thesis
    by (simp only: simp_thms)
qed

text \<open>
  After one round player 7 has a result and points. A purchase of player 8 leaves the
  result flag of player 7 set and the next purchase of player 7 clears it, the points
  flag staying set; the draw that follows sets the result flag again.
\<close>

theorem flags_persistence_witness:
  "hasPoints (players (run honestWorld [(7, BuyTicket 3 4 [] TICKET_PRICE)]
       (run honestWorld (luckyRounds 1) (constructor 1 2))) 7)
   \<and> hasResult (players (snd (exec honestWorld 8 (BuyTicket 3 4 [] TICKET_PRICE)
       (run honestWorld (luckyRounds 1) (constructor 1 2)))) 7)
   \<and> \<not> hasResult (players (snd (exec honestWorld 7 (BuyTicket 3 4 [] TICKET_PRICE)
       (run honestWorld (luckyRounds 1) (constructor 1 2)))) 7)
   \<and> hasResult (players (snd (exec honestWorld 7 (StartDraw 5 6)
       (snd (exec honestWorld 7 (BuyTicket 3 4 [] TICKET_PRICE)
          (run honestWorld (luckyRounds 1) (constructor 1 2)))))) 7)
   \<and> hasPoints (players (snd (exec honestWorld 7 (StartDraw 5 6)
       (snd (exec honestWorld 7 (BuyTicket 3 4 [] TICKET_PRICE)
          (run honestWorld (luckyRounds 1) (constructor 1 2)))))) 7)"
proof -
  define sA where "sA = run honestWorld (luckyRounds 1) (constructor 1 2)"
  define sB where "sB = snd (exec honestWorld 7 (BuyTicket 3 4 [] TICKET_PRICE) sA)"
  note f = first_round [folded sA_def]
  have tt: "totalTickets sA \<noteq> - 1" and td: "totalDraws sA \<noteq> - 1"
    by (simp_all add: f)
  note r = honest_round(1) [OF f(1) tt td, where xa = 3 and xb = 4 and pr = "[]"]
    honest_round(2) [OF f(1) tt td, where xa = 3 and xb = 4 and pr = "[]" and ra = 5 and rb = 6]
  have okB: "fst (exec honestWorld 7 (BuyTicket 3 4 [] TICKET_PRICE) sA) = Succeeded"
    by (rule r(1))
  have okD: "fst (exec honestWorld 7 (StartDraw 5 6) sB) = Succeeded"
    unfolding sB_def by (rule r(2))
  have nB: "\<not> hasResult (players sB 7)"
    unfolding sB_def
    using flags_persistence [of sA 7 honestWorld "[]" 7 "BuyTicket 3 4 [] TICKET_PRICE"
        3 4 "[]" TICKET_PRICE 5 6] okB
    by (simp only: simp_thms)
  have "hasPoints (players (run honestWorld [(7, BuyTicket 3 4 [] TICKET_PRICE)] sA) 7)"
    using flags_persistence [of sA 7 honestWorld "[(7, BuyTicket 3 4 [] TICKET_PRICE)]" 8
        "BuyTicket 3 4 [] TICKET_PRICE" 3 4 "[]" TICKET_PRICE 5 6] f(6)
    by (simp only: simp_thms)
  moreover have "hasResult (players (snd (exec honestWorld 8 (BuyTicket 3 4 [] TICKET_PRICE) sA)) 7)"
    using flags_persistence [of sA 7 honestWorld "[]" 8
        "BuyTicket 3 4 [] TICKET_PRICE" 3 4 "[]" TICKET_PRICE 5 6] f(5)
    by simp
  moreover note nB
  moreover have "hasResult (players (snd (exec honestWorld 7 (StartDraw 5 6) sB)) 7)"
    using flags_persistence [of sB 7 honestWorld "[]" 7 "StartDraw 5 6"
        3 4 "[]" TICKET_PRICE 5 6] nB okD
    by simp
  moreover have "hasPoints (players (snd (exec honestWorld 7 (StartDraw 5 6) sB)) 7)"
    using flags_persistence [of sB 7 honestWorld "[]" 7 "StartDraw 5 6"
        3 4 "[]" TICKET_PRICE 5 6] okD
    by (simp only: simp_thms)
  ultimately show ?thesis
    unfolding sA_def sB_def by (simp only: simp_thms)
qed


section \<open>Scope of the access grants\<close>





section \<open>Accumulation of points\<close>

text \<open>
  Claim C4, as stated, fails: encrypted addition is addition of 32-bit words. Player 7
  plays 4294968 rounds and wins 1000 points in each; after the first 4294967 draws the
  points decrypt to 4294967000, and after the next draw, which adds 1000 again, to 704:
  neither the sum of the rewards nor a value at least as large as before.
\<close>

theorem points_overflow_counterexample:
  "length (rewardsOf honestWorld 7 (luckyRounds 4294968) (constructor 1 2)) = 4294968
   \<and> set (rewardsOf honestWorld 7 (luckyRounds 4294968) (constructor 1 2)) = {1000}
   \<and> unat (pointsOf (run honestWorld (luckyRounds 4294967) (constructor 1 2)) 7) = 4294967000
   \<and> unat (pointsOf (run honestWorld (luckyRounds 4294968) (constructor 1 2)) 7) = 704"
proof -
  have a: "(4294968 :: nat) < 2 ^ 32" and b: "(4294967 :: nat) < 2 ^ 32"
    by simp_all
  have "unat (of_nat 4294967 * 1000 :: 32 word) = 4294967000"
    "unat (of_nat 4294968 * 1000 :: 32 word) = 704"
    by simp_all
  moreover have "(0 :: nat) < 4294968"
    by simp
  ultimately show ?thesis
    using lucky_points(1,3) [OF a] lucky_points(2) [OF a] lucky_points(3) [OF b]
    by (simp only: simp_thms)
qed

text \<open>
  Claim C4, amended. In the state reached from the constructor by any sequence of
  transactions, with \<open>rewardsOf\<close> the rewards of the successful draws of player \<open>u\<close>:
  every reward is 0, 100 or 1000; the player has points exactly when there was such a
  draw; the decrypted points are the sum of the rewards modulo \<open>2 ^ 32\<close>; they are the
  sum itself whenever the sum is below \<open>2 ^ 32\<close>, which it is after at most 4294967
  draws; and they do not decrease along any continuation of the run whose rewards sum
  to less than \<open>2 ^ 32\<close>.
\<close>

theorem points_accumulate:
  "set (rewardsOf w u txs (constructor d addr)) \<subseteq> {0, 100, 1000}
   \<and> hasPoints (players (run w txs (constructor d addr)) u)
       = (rewardsOf w u txs (constructor d addr) \<noteq> [])
   \<and> unat (pointsOf (run w txs (constructor d addr)) u)
       = sum_list (map unat (rewardsOf w u txs (constructor d addr))) mod 2 ^ 32
   \<and> (sum_list (map unat (rewardsOf w u txs (constructor d addr))) < 2 ^ 32 \<longrightarrow>
        unat (pointsOf (run w txs (constructor d addr)) u)
          = sum_list (map unat (rewardsOf w u txs (constructor d addr))))
   \<and> (length (rewardsOf w u txs (constructor d addr)) \<le> 4294967 \<longrightarrow>
        unat (pointsOf (run w txs (constructor d addr)) u)
          = sum_list (map unat (rewardsOf w u txs (constructor d addr))))
   \<and> (sum_list (map unat (rewardsOf w u (txs @ rest) (constructor d addr))) < 2 ^ 32 \<longrightarrow>
        unat (pointsOf (run w txs (constructor d addr)) u)
          \<le> unat (pointsOf (run w (txs @ rest) (constructor d addr)) u))"
proof -
  define s0 where "s0 = constructor d addr"
  have wf: "wellFormed s0"
    unfolding s0_def by (rule wellFormed_constructor)
  have z: "pointsOf s0 u = 0" "\<not> hasPoints (players s0 u)"
    by (simp_all add: s0_def pointsOf_def constructor_def noPlayer_def)
  have p: "unat (pointsOf (run w ts s0) u) = sum_list (map unat (rewardsOf w u ts s0)) mod 2 ^ 32"
    for ts
    by (simp add: pointsOf_run [OF wf] z unat_sum_list)
  have mono: "unat (pointsOf (run w txs s0) u) \<le> unat (pointsOf (run w (txs @ rest) s0) u)"
    if lt: "sum_list (map unat (rewardsOf w u (txs @ rest) s0)) < 2 ^ 32"
  proof -
    have "sum_list (map unat (rewardsOf w u txs s0))
        \<le> sum_list (map unat (rewardsOf w u (txs @ rest) s0))"
      by (simp add: rewardsOf_append)
    with lt show ?thesis
      by (simp add: p)
  qed
  have "set (rewardsOf w u txs s0) \<subseteq> {0, 100, 1000}"
    by (rule rewardsOf_values)
  moreover have "hasPoints (players (run w txs s0) u) = (rewardsOf w u txs s0 \<noteq> [])"
    by (simp add: hasPoints_run z)
  moreover note p [of txs]
  moreover have "sum_list (map unat (rewardsOf w u txs s0)) < 2 ^ 32 \<longrightarrow>
        unat (pointsOf (run w txs s0) u) = sum_list (map unat (rewardsOf w u txs s0))"
    by (simp add: p)
  moreover have "length (rewardsOf w u txs s0) \<le> 4294967 \<longrightarrow>
        unat (pointsOf (run w txs s0) u) = sum_list (map unat (rewardsOf w u txs s0))"
  proof
    assume "length (rewardsOf w u txs s0) \<le> 4294967"
    with rewards_bound [OF rewardsOf_values, of w u txs s0]
    have "sum_list (map unat (rewardsOf w u txs s0)) < 2 ^ 32"
      by simp
    then show "unat (pointsOf (run w txs s0) u) = sum_list (map unat (rewardsOf w u txs s0))"
      by (simp add: p)
  qed
  moreover note mono
  ultimately show ?thesis
    unfolding s0_def by blast
qed

theorem points_accumulate_witness:
  "unat (pointsOf (run honestWorld (luckyRounds 2) (constructor 1 2)) 7) = 2000"
proof -
  have "(2 :: nat) < 2 ^ 32" by simp
  then have "rewardsOf honestWorld 7 (luckyRounds 2) (constructor 1 2) = replicate 2 1000"
    by (intro lucky_rewards [where k = 0] wellFormed_constructor)
       (simp_all add: constructor_def noPlayer_def)
  then have rs: "rewardsOf honestWorld 7 (luckyRounds 2) (constructor 1 2) = [1000, 1000]"
    by (simp add: numeral_2_eq_2)
  have "sum_list (map unat (rewardsOf honestWorld 7 (luckyRounds 2) (constructor 1 2))) = 2000"
    unfolding rs by simp
  with points_accumulate [of honestWorld 7 "luckyRounds 2" 1 2 "[]"] show ?thesis
    by simp
qed

end
